theory Spec2Isabelle
  imports Main "HOL-Library.AList" "HOL-Library.Multiset"
begin

section \<open>The document tree\<close>

text \<open>
  An \<open>ET.Element\<close> as far as \<open>xml2csv.py\<close> reads it: its tag, its text (\<open>None\<close>
  when the element has no text) and the ordered list of its children (\<open>list(node)\<close>).
\<close>

datatype element = Element (tag: string) (text_of: "string option") (children: "element list")

type_synonym pathkey = "string list"

text \<open>
  Python dictionaries keep insertion order, so every dictionary of the program is an
  association list with distinct keys: \<open>map_of\<close> is the lookup, \<open>AList.update\<close>
  is the assignment \<open>d[k] = v\<close> (an existing key keeps its place, a new one goes last).
\<close>

type_synonym selection = "(pathkey \<times> nat) list"

type_synonym row = "(string \<times> string) list"

record header_state =
  header_order :: "string list"
  header_paths :: "(string \<times> pathkey) list"

section \<open>Grouping children by tag\<close>

text \<open>\<open>children_by_tag.setdefault(child.tag, []).append(child)\<close>\<close>

definition setdefault_append ::
  "(string \<times> element list) list \<Rightarrow> element \<Rightarrow> (string \<times> element list) list" where
  "setdefault_append children_by_tag child =
     (case map_of children_by_tag (tag child) of
        None \<Rightarrow> children_by_tag @ [(tag child, [child])]
      | Some nodes \<Rightarrow> AList.update (tag child) (nodes @ [child]) children_by_tag)"

definition get_children_by_tag :: "element \<Rightarrow> (string \<times> element list) list" where
  "get_children_by_tag parent = foldl setdefault_append [] (children parent)"

definition first_repeating_child_tag :: "element \<Rightarrow> string option" where
  "first_repeating_child_tag parent =
     map_option fst (find (\<lambda>(t, nodes). length nodes > 1) (get_children_by_tag parent))"

subsection \<open>What the grouping holds\<close>

lemma by_tag_fold_inv:
  "distinct (map fst (foldl setdefault_append [] cs)) \<and>
   (\<forall>t. map_of (foldl setdefault_append [] cs) t =
     (if t \<in> tag ` set cs then Some (filter (\<lambda>c. tag c = t) cs) else None))"
proof (induction cs rule: rev_induct)
  case Nil
  then show ?case by simp
next
  case (snoc c cs)
  let ?d = "foldl setdefault_append [] cs"
  from snoc have dist: "distinct (map fst ?d)"
    and look: "\<And>t. map_of ?d t = (if t \<in> tag ` set cs then Some (filter (\<lambda>c. tag c = t) cs) else None)"
    by simp_all
  show ?case
  proof (cases "map_of ?d (tag c)")
    case None
    then have notin: "tag c \<notin> tag ` set cs" using look [of "tag c"] by (simp split: if_splits)
    from notin have empty: "filter (\<lambda>c'. tag c' = tag c) cs = []"
      by (induction cs) auto
    have step: "foldl setdefault_append [] (cs @ [c]) = ?d @ [(tag c, [c])]"
      using None by (simp add: setdefault_append_def)
    have "tag c \<notin> fst ` set ?d" using None by (simp add: map_of_eq_None_iff)
    with dist have d': "distinct (map fst (?d @ [(tag c, [c])]))" by simp
    have "\<forall>t. map_of (?d @ [(tag c, [c])]) t =
      (if t \<in> tag ` set (cs @ [c]) then Some (filter (\<lambda>c. tag c = t) (cs @ [c])) else None)"
      using notin empty by (auto simp: look map_add_def split: option.splits)
    with d' step show ?thesis by simp
  next
    case (Some nodes)
    then have nodes: "tag c \<in> tag ` set cs" "nodes = filter (\<lambda>c'. tag c' = tag c) cs"
      using look [of "tag c"] by (simp_all split: if_splits)
    have step: "foldl setdefault_append [] (cs @ [c]) = AList.update (tag c) (nodes @ [c]) ?d"
      using Some by (simp add: setdefault_append_def)
    have d': "distinct (map fst (AList.update (tag c) (nodes @ [c]) ?d))"
      using dist by (simp add: distinct_update)
    have "\<forall>t. map_of (AList.update (tag c) (nodes @ [c]) ?d) t =
      (if t \<in> tag ` set (cs @ [c]) then Some (filter (\<lambda>c. tag c = t) (cs @ [c])) else None)"
      using nodes by (auto simp: look update_conv')
    with d' step show ?thesis by simp
  qed
qed

lemma map_of_get_children_by_tag:
  "map_of (get_children_by_tag p) t =
     (if t \<in> tag ` set (children p) then Some (filter (\<lambda>c. tag c = t) (children p)) else None)"
  using by_tag_fold_inv [of "children p"] by (simp add: get_children_by_tag_def)

lemma distinct_get_children_by_tag: "distinct (map fst (get_children_by_tag p))"
  using by_tag_fold_inv [of "children p"] by (simp add: get_children_by_tag_def)

lemma get_children_by_tag_entry:
  assumes "(t, nodes) \<in> set (get_children_by_tag p)"
  shows "nodes = filter (\<lambda>c. tag c = t) (children p)" and "nodes \<noteq> []"
proof -
  from assms have "map_of (get_children_by_tag p) t = Some nodes"
    by (simp add: distinct_get_children_by_tag)
  then have *: "t \<in> tag ` set (children p)" "nodes = filter (\<lambda>c. tag c = t) (children p)"
    by (simp_all add: map_of_get_children_by_tag split: if_splits)
  show "nodes = filter (\<lambda>c. tag c = t) (children p)" by fact
  from * show "nodes \<noteq> []" by (auto simp: filter_empty_conv)
qed

lemma size_child: "c \<in> set (children p) \<Longrightarrow> size c < size p"
  by (cases p) (auto simp: less_Suc_eq_le size_list_estimation')

section \<open>Row Locator\<close>

text \<open>
  The queue of the breadth-first search. \<open>None\<close> is the loop running to its end
  (no parent with a repeating child tag in the whole queue).
\<close>

function bfs :: "element list \<Rightarrow> (element \<times> string \<times> element list) option" where
  "bfs [] = None"
| "bfs (parent # queue) =
     (case first_repeating_child_tag parent of
        Some t \<Rightarrow>
          Some (parent, t, (case map_of (get_children_by_tag parent) t of
                              Some row_elements \<Rightarrow> row_elements | None \<Rightarrow> []))
      | None \<Rightarrow> bfs (queue @ children parent))"
  by pat_completeness auto
termination
proof (relation "measure (\<lambda>queue. sum_list (map size queue))")
  show "wf (measure (\<lambda>queue. sum_list (map size queue)))" by simp
next
  fix parent :: element and queue :: "element list"
  have "sum_list (map size (children parent)) < size parent"
    by (cases parent) (simp add: size_list_conv_sum_list)
  then show "(queue @ children parent, parent # queue)
               \<in> measure (\<lambda>queue. sum_list (map size queue))"
    by simp
qed

definition find_row_parent_and_tag :: "element \<Rightarrow> element option \<times> string \<times> element list" where
  "find_row_parent_and_tag root =
     (case bfs [root] of
        Some (parent, t, row_elements) \<Rightarrow> (Some parent, t, row_elements)
      | None \<Rightarrow> (None, tag root, [root]))"

section \<open>Group Indexer\<close>

definition compute_repeating_group_keys ::
  "element \<Rightarrow> pathkey \<Rightarrow> (pathkey \<times> string \<times> element list) list" where
  "compute_repeating_group_keys parent parent_path =
     map (\<lambda>(t, cs). (parent_path @ [t], t, cs))
       (filter (\<lambda>(t, cs). length cs > 1) (get_children_by_tag parent))"

text \<open>
  \<open>find_in_children\<close> is the loop \<open>for child in list(root)\<close> of
  \<open>find_next_unselected_repeating_group\<close>; its first argument is
  \<open>get_children_by_tag(root)\<close>, which the source recomputes for every child.
\<close>

fun find_next_unselected_repeating_group ::
    "element \<Rightarrow> selection \<Rightarrow> pathkey option \<Rightarrow> (pathkey \<times> element list) option"
  and find_in_children ::
    "(string \<times> element list) list \<Rightarrow> element list \<Rightarrow> selection \<Rightarrow> pathkey
       \<Rightarrow> (pathkey \<times> element list) option"
where
  "find_next_unselected_repeating_group (Element t x cs) selection path_prefix_opt =
     (let path_prefix = (case path_prefix_opt of None \<Rightarrow> [t] | Some p \<Rightarrow> p) in
      case find (\<lambda>(group_key, _, _). map_of selection group_key = None)
             (compute_repeating_group_keys (Element t x cs) path_prefix) of
        Some (group_key, _, cs') \<Rightarrow> Some (group_key, cs')
      | None \<Rightarrow> find_in_children (get_children_by_tag (Element t x cs)) cs selection path_prefix)"
| "find_in_children by_tag [] selection path_prefix = None"
| "find_in_children by_tag (child # rest) selection path_prefix =
     (let siblings = (case map_of by_tag (tag child) of Some s \<Rightarrow> s | None \<Rightarrow> []) in
      if length siblings = 1
      then (case find_next_unselected_repeating_group child selection
                   (Some (path_prefix @ [tag child])) of
              Some found \<Rightarrow> Some found
            | None \<Rightarrow> find_in_children by_tag rest selection path_prefix)
      else find_in_children by_tag rest selection path_prefix)"

section \<open>Leaf Collector\<close>

lemma sibling_size:
  assumes "(t, nodes) \<in> set (get_children_by_tag p)" and "i < length nodes"
  shows "size (nodes ! i) < size p"
proof -
  from assms(1) have "nodes = filter (\<lambda>c. tag c = t) (children p)"
    by (rule get_children_by_tag_entry)
  then have "set nodes \<subseteq> set (children p)" by auto
  with assms(2) have "nodes ! i \<in> set (children p)" using nth_mem by blast
  then show ?thesis by (rule size_child)
qed

text \<open>
  \<open>(node.text or "").strip()\<close>: \<open>str.strip\<close> without arguments removes the leading and
  the trailing characters that \<open>str.isspace\<close> accepts. A character of the model is a code
  point below 256 (\<open>CHR 0xA0\<close> is \<open>U+00A0\<close>), and \<open>is_space\<close> lists every such code
  point that Python counts as white space: tab, line feed, vertical tab, form feed,
  carriage return, the separators \<open>0x1C\<close> to \<open>0x1F\<close>, the space, next line (\<open>0x85\<close>)
  and the no-break space (\<open>0xA0\<close>). The white space beyond \<open>U+00FF\<close> (such as
  \<open>U+2003\<close> or \<open>U+3000\<close>) has no character in this type.
\<close>

definition is_space :: "char \<Rightarrow> bool" where
  "is_space c = (c \<in> set [CHR 0x09, CHR 0x0A, CHR 0x0B, CHR 0x0C, CHR 0x0D,
                           CHR 0x1C, CHR 0x1D, CHR 0x1E, CHR 0x1F, CHR 0x20,
                           CHR 0x85, CHR 0xA0])"

definition strip :: "string \<Rightarrow> string" where
  "strip s = rev (dropWhile is_space (rev (dropWhile is_space s)))"

text \<open>
  The generator \<open>iter_scalar_leaves\<close> as the list of what it yields, in order. The
  recursive calls go to members of \<open>get_children_by_tag(node)\<close>, which are children of
  the node, so the size of the node decreases.
\<close>

function iter_scalar_leaves ::
  "element \<Rightarrow> selection \<Rightarrow> pathkey option \<Rightarrow> (pathkey \<times> string) list" where
  "iter_scalar_leaves node selection path_opt =
     (let path = (case path_opt of None \<Rightarrow> [tag node] | Some p \<Rightarrow> p) in
      if children node = []
      then [(path, strip (case text_of node of None \<Rightarrow> [] | Some s \<Rightarrow> s))]
      else concat (map (\<lambda>(t, siblings).
             let next_path = path @ [t] in
             if length siblings > 1
             then (case map_of selection next_path of
                     Some idx \<Rightarrow>
                       if idx < length siblings
                       then iter_scalar_leaves (siblings ! idx) selection (Some next_path)
                       else []
                   | None \<Rightarrow> [])
             else iter_scalar_leaves (siblings ! 0) selection (Some next_path))
           (get_children_by_tag node)))"
  by pat_completeness auto
termination
proof (relation "measure (\<lambda>(node, selection, path_opt). size node)", goal_cases)
  case 1
  show ?case by simp
next
  case (2 node selection path_opt path entry t siblings next_path idx)
  then have "(t, siblings) \<in> set (get_children_by_tag node)" and "idx < length siblings"
    by simp_all
  then have "size (siblings ! idx) < size node" by (rule sibling_size)
  then show ?case by simp
next
  case (3 node selection path_opt path entry t siblings next_path)
  then have mem: "(t, siblings) \<in> set (get_children_by_tag node)" by simp
  then have "siblings \<noteq> []" by (rule get_children_by_tag_entry)
  then have "0 < length siblings" by simp
  with mem have "size (siblings ! 0) < size node" by (rule sibling_size)
  then show ?case by simp
qed

declare iter_scalar_leaves.simps [simp del]

text \<open>The body of the loop of \<open>build_container_values\<close>, for one yielded leaf.\<close>

definition add_container_leaf :: "element \<Rightarrow> string \<Rightarrow> row \<Rightarrow> pathkey \<times> string \<Rightarrow> row" where
  "add_container_leaf parent row_tag values leaf =
     (let (path, text) = leaf in
      if length path \<ge> 2 \<and> path ! 0 = tag parent \<and> path ! 1 = row_tag then values
      else if text = [] then values
      else AList.update (last path) text values)"

definition build_container_values :: "element option \<Rightarrow> string \<Rightarrow> row" where
  "build_container_values row_parent row_tag =
     (case row_parent of
        None \<Rightarrow> []
      | Some parent \<Rightarrow>
          foldl (add_container_leaf parent row_tag) [] (iter_scalar_leaves parent [] None))"

section \<open>Column Namer\<close>

text \<open>
  \<open>str_of_nat\<close> is the decimal numeral that the f-string \<open>f"{dotted}_{i}"\<close> prints
  for \<open>i\<close>; \<open>join\<close> is \<open>sep.join(parts)\<close>. Different numbers print differently, which
  is why the search for a free suffix ends: the dictionary has finitely many keys.
\<close>

definition digit_char :: "nat \<Rightarrow> char" where
  "digit_char d = char_of (48 + d)"

fun str_of_nat :: "nat \<Rightarrow> string" where
  "str_of_nat n =
     (if n < 10 then [digit_char n] else str_of_nat (n div 10) @ [digit_char (n mod 10)])"

declare str_of_nat.simps [simp del]

lemma digit_char_inj:
  assumes "a < 10" and "b < 10" and "digit_char a = digit_char b"
  shows "a = b"
proof -
  from assms(3) have "(of_char (digit_char a) :: nat) = of_char (digit_char b)" by simp
  with assms(1,2) show ?thesis by (simp add: digit_char_def)
qed

lemma str_of_nat_nonempty: "str_of_nat n \<noteq> []"
  by (subst str_of_nat.simps) simp

lemma str_of_nat_single: "(\<exists>c. str_of_nat n = [c]) \<longleftrightarrow> n < 10"
proof (cases "n < 10")
  case True
  then show ?thesis by (subst str_of_nat.simps) simp
next
  case False
  then have "str_of_nat n = str_of_nat (n div 10) @ [digit_char (n mod 10)]"
    by (subst str_of_nat.simps) simp
  with False show ?thesis by (simp add: str_of_nat_nonempty)
qed

lemma str_of_nat_inj: "str_of_nat m = str_of_nat n \<Longrightarrow> m = n"
proof (induction m arbitrary: n rule: str_of_nat.induct)
  case (1 m)
  show ?case
  proof (cases "m < 10")
    case True
    then have m: "str_of_nat m = [digit_char m]" by (subst str_of_nat.simps) simp
    from m "1.prems" have "\<exists>c. str_of_nat n = [c]" by simp
    then have "n < 10" by (simp only: str_of_nat_single)
    then have "str_of_nat n = [digit_char n]" by (subst str_of_nat.simps) simp
    with m "1.prems" True \<open>n < 10\<close> show ?thesis by (auto dest: digit_char_inj)
  next
    case False
    then have m: "str_of_nat m = str_of_nat (m div 10) @ [digit_char (m mod 10)]"
      by (subst str_of_nat.simps) simp
    have "\<not> n < 10"
    proof
      assume "n < 10"
      then have "str_of_nat n = [digit_char n]" by (subst str_of_nat.simps) simp
      with "1.prems" have "\<exists>c. str_of_nat m = [c]" by simp
      with False show False by (simp only: str_of_nat_single)
    qed
    then have n: "str_of_nat n = str_of_nat (n div 10) @ [digit_char (n mod 10)]"
      by (subst str_of_nat.simps) simp
    from m n "1.prems" have eq: "str_of_nat (m div 10) = str_of_nat (n div 10)"
      and d: "digit_char (m mod 10) = digit_char (n mod 10)" by simp_all
    from False eq have "m div 10 = n div 10" by (rule "1.IH")
    moreover have "m mod 10 = n mod 10"
      by (rule digit_char_inj [OF _ _ d]) simp_all
    ultimately show ?thesis by (metis div_mult_mod_eq)
  qed
qed

fun join :: "string \<Rightarrow> string list \<Rightarrow> string" where
  "join sep [] = []"
| "join sep [x] = x"
| "join sep (x # y # ys) = x @ sep @ join sep (y # ys)"

text \<open>The loop \<open>while True\<close> of \<open>disambiguate_column_name\<close>, entered with \<open>i = 2\<close>.\<close>

function numeric_suffix :: "string \<Rightarrow> (string \<times> pathkey) list \<Rightarrow> nat \<Rightarrow> string" where
  "numeric_suffix dotted existing i =
     (let alt = dotted @ ''_'' @ str_of_nat i in
      if map_of existing alt = None then alt else numeric_suffix dotted existing (i + 1))"
  by pat_completeness auto
termination
proof (relation "measure (\<lambda>(dotted, existing, i).
         card {j. i \<le> j \<and> dotted @ ''_'' @ str_of_nat j \<in> fst ` set existing})", goal_cases)
  case 1
  show ?case by simp
next
  case (2 dotted existing i alt)
  let ?K = "fst ` set existing"
  let ?alt = "\<lambda>j. dotted @ ''_'' @ str_of_nat j"
  have "inj ?alt" by (auto intro!: injI dest: str_of_nat_inj)
  then have "finite (?alt -` ?K)" by (simp add: finite_vimageI)
  moreover have "{j. i \<le> j \<and> ?alt j \<in> ?K} \<subseteq> ?alt -` ?K" by auto
  ultimately have fin: "finite {j. i \<le> j \<and> ?alt j \<in> ?K}" by (rule rev_finite_subset)
  from 2 have "?alt i \<in> ?K" by (auto simp: map_of_eq_None_iff)
  then have "i \<in> {j. i \<le> j \<and> ?alt j \<in> ?K}" and "i \<notin> {j. i + 1 \<le> j \<and> ?alt j \<in> ?K}"
    by simp_all
  moreover have "{j. i + 1 \<le> j \<and> ?alt j \<in> ?K} \<subseteq> {j. i \<le> j \<and> ?alt j \<in> ?K}" by auto
  ultimately have "{j. i + 1 \<le> j \<and> ?alt j \<in> ?K} \<subset> {j. i \<le> j \<and> ?alt j \<in> ?K}"
    by blast
  with fin have "card {j. i + 1 \<le> j \<and> ?alt j \<in> ?K} < card {j. i \<le> j \<and> ?alt j \<in> ?K}"
    by (rule psubset_card_mono)
  then show ?case by simp
qed

declare numeric_suffix.simps [simp del]

definition disambiguate_column_name ::
  "string \<Rightarrow> pathkey \<Rightarrow> (string \<times> pathkey) list \<Rightarrow> string" where
  "disambiguate_column_name candidate full_path existing =
     (if map_of existing candidate = None then candidate
      else let dotted = join ''.'' full_path in
           if map_of existing dotted = None then dotted
           else numeric_suffix dotted existing 2)"

section \<open>Row Assembler\<close>

text \<open>
  The header state is the pair of \<open>header_order\<close> and \<open>header_paths\<close> that the source
  mutates in place; every function here returns the updated state. \<open>register_column\<close> is
  the block \<open>if col not in header_paths: header_paths[col] = full_path;
  header_order.append(col)\<close>; \<open>add_container_value\<close> and \<open>add_leaf_value\<close> are the
  bodies of the two inner loops of \<open>extract_rows_for_element\<close>, \<open>build_row\<close> is the body
  of its loop over the finalized selections, and \<open>build_rows\<close> is that loop.
\<close>

definition register_column :: "string \<Rightarrow> pathkey \<Rightarrow> header_state \<Rightarrow> header_state" where
  "register_column col full_path hs =
     (if map_of (header_paths hs) col = None
      then hs\<lparr>header_paths := AList.update col full_path (header_paths hs),
              header_order := header_order hs @ [col]\<rparr>
      else hs)"

definition add_container_value ::
  "element option \<Rightarrow> header_state \<times> row \<Rightarrow> string \<times> string \<Rightarrow> header_state \<times> row" where
  "add_container_value row_parent st item =
     (let (hs, row_map) = st;
          (candidate_name, v) = item;
          full_path = (case row_parent of Some parent \<Rightarrow> [tag parent, candidate_name]
                                        | None \<Rightarrow> [candidate_name]);
          col = (if (case row_parent of
                       Some parent \<Rightarrow>
                         map_of (header_paths hs) candidate_name \<noteq> None \<and>
                         map_of (header_paths hs) candidate_name \<noteq> Some [tag parent, candidate_name]
                     | None \<Rightarrow> False)
                 then disambiguate_column_name candidate_name full_path (header_paths hs)
                 else candidate_name)
      in (register_column col full_path hs,
          if map_of row_map col = None then AList.update col v row_map else row_map))"

definition add_leaf_value ::
  "element option \<Rightarrow> string \<Rightarrow> header_state \<times> row \<Rightarrow> pathkey \<times> string \<Rightarrow> header_state \<times> row" where
  "add_leaf_value row_parent row_tag st leaf =
     (let (hs, row_map) = st;
          (path, text) = leaf;
          effective_path =
            (if length path \<ge> 2 \<and>
                (case row_parent of Some parent \<Rightarrow> path ! 0 = tag parent \<and> path ! 1 = row_tag
                                  | None \<Rightarrow> False)
             then tl path else path)
      in if text = [] then (hs, row_map)
         else let candidate_name = last effective_path;
                  col = (if map_of (header_paths hs) candidate_name \<noteq> None \<and>
                            map_of (header_paths hs) candidate_name \<noteq> Some effective_path
                         then disambiguate_column_name candidate_name effective_path (header_paths hs)
                         else candidate_name)
              in (register_column col effective_path hs, AList.update col text row_map))"

definition build_row ::
  "element \<Rightarrow> element option \<Rightarrow> string \<Rightarrow> row \<Rightarrow> header_state \<Rightarrow> selection
     \<Rightarrow> row \<times> header_state" where
  "build_row row_elem row_parent row_tag container_values hs sel =
     (let (hs1, row1) = foldl (add_container_value row_parent) (hs, []) container_values;
          (hs2, row2) = foldl (add_leaf_value row_parent row_tag) (hs1, row1)
                          (iter_scalar_leaves row_elem sel None)
      in (row2, hs2))"

fun build_rows ::
  "element \<Rightarrow> element option \<Rightarrow> string \<Rightarrow> row \<Rightarrow> selection list
     \<Rightarrow> row list \<times> header_state \<Rightarrow> row list \<times> header_state" where
  "build_rows row_elem row_parent row_tag container_values [] st = st"
| "build_rows row_elem row_parent row_tag container_values (sel # finalized) (rows, hs) =
     (let (row_map, hs') = build_row row_elem row_parent row_tag container_values hs sel
      in build_rows row_elem row_parent row_tag container_values finalized (rows @ [row_map], hs'))"

text \<open>
  The worklist loop \<open>while pending\<close>: \<open>pending.pop()\<close> takes the last element. Nothing
  is assumed about its termination: \<open>None\<close> stands for a loop that never returns.
\<close>

partial_function (option) expand_selections ::
  "element \<Rightarrow> selection list \<Rightarrow> selection list \<Rightarrow> selection list option" where
  "expand_selections row_elem pending finalized =
     (if pending = [] then Some finalized
      else let sel = last pending; rest = butlast pending in
           case find_next_unselected_repeating_group row_elem sel None of
             None \<Rightarrow> expand_selections row_elem rest (finalized @ [sel])
           | Some (group_key, cs) \<Rightarrow>
               expand_selections row_elem
                 (rest @ map (\<lambda>idx. AList.update group_key idx sel) [0..<length cs])
                 finalized)"

declare expand_selections.simps [code]

definition extract_rows_for_element ::
  "element \<Rightarrow> element option \<Rightarrow> string \<Rightarrow> header_state \<Rightarrow> (row list \<times> header_state) option" where
  "extract_rows_for_element row_elem row_parent row_tag hs =
     (case expand_selections row_elem [[]] [] of
        None \<Rightarrow> None
      | Some finalized \<Rightarrow>
          Some (build_rows row_elem row_parent row_tag
                  (build_container_values row_parent row_tag) finalized ([], hs)))"

text \<open>
  \<open>extract_row_elements\<close> is the loop \<open>for row_elem in row_elements\<close> of
  \<open>extract_table_from_file\<close>, whose argument here is the parsed root element, and
  \<open>merge_inputs\<close> is the loop over the input files in \<open>main\<close> (merge mode), over
  the roots of the files that parse.
\<close>

fun extract_row_elements ::
  "element list \<Rightarrow> element option \<Rightarrow> string \<Rightarrow> row list \<times> header_state
     \<Rightarrow> (row list \<times> header_state) option" where
  "extract_row_elements [] row_parent row_tag st = Some st"
| "extract_row_elements (row_elem # row_elements) row_parent row_tag (rows, hs) =
     (case extract_rows_for_element row_elem row_parent row_tag hs of
        None \<Rightarrow> None
      | Some (extracted, hs') \<Rightarrow>
          extract_row_elements row_elements row_parent row_tag (rows @ extracted, hs'))"

definition extract_table_from_file ::
  "element \<Rightarrow> header_state \<Rightarrow> (row list \<times> header_state) option" where
  "extract_table_from_file root hs =
     (case find_row_parent_and_tag root of
        (row_parent, row_tag, row_elements) \<Rightarrow>
          extract_row_elements row_elements row_parent row_tag ([], hs))"

fun merge_inputs ::
  "element list \<Rightarrow> row list \<times> header_state \<Rightarrow> (row list \<times> header_state) option" where
  "merge_inputs [] st = Some st"
| "merge_inputs (root # inputs) (merged_rows, hs) =
     (case extract_table_from_file root hs of
        None \<Rightarrow> None
      | Some (rows, hs') \<Rightarrow> merge_inputs inputs (merged_rows @ rows, hs'))"

definition fresh_header :: header_state where
  "fresh_header = \<lparr>header_order = [], header_paths = []\<rparr>"

section \<open>Lookups that cannot fail\<close>

text \<open>
  Three reads of the source would raise outside their range, and the model writes them
  with total functions: \<open>get_children_by_tag(parent)[tag]\<close> in the Row Locator,
  \<open>siblings[0]\<close> in the Leaf Collector and \<open>path[-1]\<close> where a column is named. The
  tag looked up is a key of the dictionary, every list in the dictionary is non-empty
  (\<open>get_children_by_tag_entry\<close>), and every yielded path extends the path the traversal
  started with, so none of them leaves its range.
\<close>

lemma find_SomeD: "find P xs = Some x \<Longrightarrow> x \<in> set xs \<and> P x"
  by (induction xs) (auto split: if_splits)

lemma first_repeating_child_tag_lookup:
  assumes "first_repeating_child_tag parent = Some t"
  shows "\<exists>nodes. map_of (get_children_by_tag parent) t = Some nodes \<and> 1 < length nodes"
proof -
  from assms obtain entry where found: "find (\<lambda>(t, nodes). length nodes > 1) (get_children_by_tag parent) = Some entry"
    and t: "fst entry = t"
    by (auto simp: first_repeating_child_tag_def)
  obtain nodes where entry: "entry = (t, nodes)" using t by (cases entry) simp
  from found entry have "(t, nodes) \<in> set (get_children_by_tag parent)" and "1 < length nodes"
    by (auto dest: find_SomeD)
  then show ?thesis by (auto simp: distinct_get_children_by_tag)
qed

lemma iter_scalar_leaves_extends_path:
  "(path, s) \<in> set (iter_scalar_leaves node sel path_opt) \<Longrightarrow>
   \<exists>ts. path = (case path_opt of None \<Rightarrow> [tag node] | Some p \<Rightarrow> p) @ ts"
proof (induction node sel path_opt arbitrary: path s rule: iter_scalar_leaves.induct)
  case (1 node selection path_opt)
  let ?path = "case path_opt of None \<Rightarrow> [tag node] | Some p \<Rightarrow> p"
  show ?case
  proof (cases "children node = []")
    case True
    with "1.prems" show ?thesis by (subst (asm) iter_scalar_leaves.simps) simp
  next
    case False
    with "1.prems" obtain t siblings where mem: "(t, siblings) \<in> set (get_children_by_tag node)"
      and sub: "(path, s) \<in> set
        (if length siblings > 1
         then (case map_of selection (?path @ [t]) of
                 Some idx \<Rightarrow>
                   if idx < length siblings
                   then iter_scalar_leaves (siblings ! idx) selection (Some (?path @ [t]))
                   else []
               | None \<Rightarrow> [])
         else iter_scalar_leaves (siblings ! 0) selection (Some (?path @ [t])))"
      by (subst (asm) iter_scalar_leaves.simps) (auto simp: Let_def)
    have "\<exists>ts. path = (?path @ [t]) @ ts"
    proof (cases "length siblings > 1")
      case True
      with sub obtain idx where idx: "map_of selection (?path @ [t]) = Some idx" "idx < length siblings"
        and "(path, s) \<in> set (iter_scalar_leaves (siblings ! idx) selection (Some (?path @ [t])))"
        by (cases "map_of selection (?path @ [t])") (auto split: if_splits)
      with "1.IH"(1) [OF refl False mem refl refl True idx] show ?thesis by simp
    next
      case single: False
      with sub have "(path, s) \<in> set (iter_scalar_leaves (siblings ! 0) selection (Some (?path @ [t])))"
        by simp
      with "1.IH"(2) [OF refl False mem refl refl single] show ?thesis by simp
    qed
    then show ?thesis by auto
  qed
qed

lemma iter_scalar_leaves_path_nonempty:
  "(path, s) \<in> set (iter_scalar_leaves node sel None) \<Longrightarrow> path \<noteq> []"
  by (drule iter_scalar_leaves_extends_path) auto

section \<open>Row Locator: documents without a repeating child tag\<close>

text \<open>
  ``No node has two or more direct children sharing a tag'', as the specification
  words it: at every node of the tree the tags of the direct children are pairwise distinct.
\<close>

fun no_repeating_child_tag :: "element \<Rightarrow> bool" where
  "no_repeating_child_tag (Element t x cs) =
     (distinct (map tag cs) \<and> list_all no_repeating_child_tag cs)"

lemma filter_distinct_le_one:
  "distinct (map f xs) \<Longrightarrow> length (filter (\<lambda>x. f x = y) xs) \<le> 1"
  by (induction xs) (auto simp: filter_empty_conv image_iff)

lemma first_repeating_child_tag_None:
  assumes "distinct (map tag (children p))"
  shows "first_repeating_child_tag p = None"
proof -
  have "\<not> 1 < length nodes" if "(t, nodes) \<in> set (get_children_by_tag p)" for t nodes
  proof -
    from that have "nodes = filter (\<lambda>c. tag c = t) (children p)"
      by (rule get_children_by_tag_entry)
    with assms filter_distinct_le_one [of tag "children p" t] show ?thesis by simp
  qed
  then have "find (\<lambda>(t, nodes). length nodes > 1) (get_children_by_tag p) = None"
    by (auto simp: find_None_iff)
  then show ?thesis by (simp add: first_repeating_child_tag_def)
qed

lemma bfs_no_repeats: "list_all no_repeating_child_tag queue \<Longrightarrow> bfs queue = None"
proof (induction queue rule: bfs.induct)
  case 1
  show ?case by simp
next
  case (2 parent queue)
  from "2.prems" have p: "no_repeating_child_tag parent"
    and q: "list_all no_repeating_child_tag queue"
    by simp_all
  from p have d: "distinct (map tag (children parent))"
    and cs: "list_all no_repeating_child_tag (children parent)"
    by (cases parent; simp)+
  from d have none: "first_repeating_child_tag parent = None"
    by (rule first_repeating_child_tag_None)
  from q cs have "list_all no_repeating_child_tag (queue @ children parent)" by simp
  with none have "bfs (queue @ children parent) = None" by (rule "2.IH")
  with none show ?case by simp
qed

text \<open>
  C4. For every document in which no node has two or more direct children sharing a
  tag, \<open>find_row_parent_and_tag\<close> returns no row parent (\<open>None\<close>), the root's tag as
  row tag, and exactly one row element, the root itself.
\<close>

theorem locate_without_repeats:
  "no_repeating_child_tag root \<Longrightarrow> find_row_parent_and_tag root = (None, tag root, [root])"
  using bfs_no_repeats [of "[root]"] by (simp add: find_row_parent_and_tag_def)

theorem locate_without_repeats_witness:
  "no_repeating_child_tag
     (Element ''a'' None [Element ''x'' (Some ''1'') [],
                          Element ''y'' None [Element ''x'' (Some ''2'') []]]) \<and>
   find_row_parent_and_tag
     (Element ''a'' None [Element ''x'' (Some ''1'') [],
                          Element ''y'' None [Element ''x'' (Some ''2'') []]])
   = (None, ''a'', [Element ''a'' None [Element ''x'' (Some ''1'') [],
                          Element ''y'' None [Element ''x'' (Some ''2'') []]]])"
proof -
  have h: "no_repeating_child_tag
     (Element ''a'' None [Element ''x'' (Some ''1'') [],
                          Element ''y'' None [Element ''x'' (Some ''2'') []]])"
    by simp
  from locate_without_repeats [OF h] h show ?thesis by simp
qed

section \<open>Nested repeating groups and the Selection Expander\<close>

definition first_seen :: "'a list \<Rightarrow> 'a list" where
  "first_seen xs = rev (remdups (rev xs))"

lemma first_seen_snoc:
  "first_seen (xs @ [x]) = (if x \<in> set xs then first_seen xs else first_seen xs @ [x])"
  by (simp add: first_seen_def)

lemma set_first_seen [simp]: "set (first_seen xs) = set xs"
  by (simp add: first_seen_def)

lemma distinct_first_seen [simp]: "distinct (first_seen xs)"
  by (simp add: first_seen_def)

lemma keys_fold_first_seen:
  "map fst (foldl setdefault_append [] cs) = first_seen (map tag cs)"
proof (induction cs rule: rev_induct)
  case Nil
  show ?case by (simp add: first_seen_def)
next
  case (snoc c cs)
  let ?d = "foldl setdefault_append [] cs"
  have look: "map_of ?d (tag c) =
      (if tag c \<in> tag ` set cs then Some (filter (\<lambda>c'. tag c' = tag c) cs) else None)"
    using by_tag_fold_inv [of cs] by simp
  show ?case
  proof (cases "tag c \<in> tag ` set cs")
    case True
    with look have "foldl setdefault_append [] (cs @ [c]) =
        AList.update (tag c) (filter (\<lambda>c'. tag c' = tag c) cs @ [c]) ?d"
      by (simp add: setdefault_append_def)
    moreover from True snoc have "tag c \<in> set (map fst ?d)" by simp
    ultimately show ?thesis using True snoc by (simp add: update_keys first_seen_snoc)
  next
    case False
    with look have "foldl setdefault_append [] (cs @ [c]) = ?d @ [(tag c, [c])]"
      by (simp add: setdefault_append_def)
    with False snoc show ?thesis by (simp add: first_seen_snoc)
  qed
qed

lemma alist_by_keys:
  "(\<And>k v. (k, v) \<in> set xs \<Longrightarrow> v = f k) \<Longrightarrow> xs = map (\<lambda>k. (k, f k)) (map fst xs)"
  by (induction xs) auto

text \<open>The dictionary of \<open>get_children_by_tag\<close> in closed form.\<close>

lemma get_children_by_tag_eq:
  "get_children_by_tag p =
     map (\<lambda>t. (t, filter (\<lambda>c. tag c = t) (children p))) (first_seen (map tag (children p)))"
proof -
  have "get_children_by_tag p =
      map (\<lambda>t. (t, filter (\<lambda>c. tag c = t) (children p))) (map fst (get_children_by_tag p))"
    by (rule alist_by_keys) (rule get_children_by_tag_entry)
  then show ?thesis by (simp add: get_children_by_tag_def keys_fold_first_seen)
qed

text \<open>
  The nested repeating groups reachable from a node, in the words of the specification:
  a repeating group is a tag that two or more direct children share; the groups of a node
  come first, in first-seen order of their tags, then those reachable through each
  singleton child (a child that is alone with its tag), left to right. The children of
  a repeating group are not searched.
\<close>

fun reachable_groups :: "element \<Rightarrow> pathkey \<Rightarrow> (pathkey \<times> element list) list" where
  "reachable_groups (Element t x cs) path =
     map (\<lambda>g. (path @ [g], filter (\<lambda>c. tag c = g) cs))
       (filter (\<lambda>g. 2 \<le> length (filter (\<lambda>c. tag c = g) cs)) (first_seen (map tag cs)))
     @ concat (map (\<lambda>c. if length (filter (\<lambda>c'. tag c' = tag c) cs) = 1
                         then reachable_groups c (path @ [tag c]) else []) cs)"

lemma find_app:
  "find P (xs @ ys) = (case find P xs of Some x \<Rightarrow> Some x | None \<Rightarrow> find P ys)"
  by (induction xs) auto

lemma find_map_option: "find P (map f xs) = map_option f (find (\<lambda>x. P (f x)) xs)"
  by (induction xs) auto

definition unselected :: "selection \<Rightarrow> pathkey \<times> element list \<Rightarrow> bool" where
  "unselected sel g = (map_of sel (fst g) = None)"

lemma find_here:
  "map_option (\<lambda>(group_key, _, cs'). (group_key, cs'))
     (find (\<lambda>(group_key, _, _). map_of sel group_key = None)
        (compute_repeating_group_keys (Element t x cs) path))
   = find (unselected sel)
       (map (\<lambda>g. (path @ [g], filter (\<lambda>c. tag c = g) cs))
          (filter (\<lambda>g. 2 \<le> length (filter (\<lambda>c. tag c = g) cs)) (first_seen (map tag cs))))"
proof -
  have "compute_repeating_group_keys (Element t x cs) path =
      map (\<lambda>g. (path @ [g], g, filter (\<lambda>c. tag c = g) cs))
        (filter (\<lambda>g. 2 \<le> length (filter (\<lambda>c. tag c = g) cs)) (first_seen (map tag cs)))"
    by (simp add: compute_repeating_group_keys_def get_children_by_tag_eq filter_map o_def
        Suc_le_eq numeral_2_eq_2)
  then show ?thesis
    by (simp add: find_map_option unselected_def option.map_comp o_def)
qed

lemma find_next_reachable:
  "find_next_unselected_repeating_group e sel path_opt =
     find (unselected sel)
       (reachable_groups e (case path_opt of None \<Rightarrow> [tag e] | Some p \<Rightarrow> p))"
  "find_in_children by_tag cs sel path =
     find (unselected sel)
       (concat (map (\<lambda>c. if length (case map_of by_tag (tag c) of Some s \<Rightarrow> s | None \<Rightarrow> []) = 1
                          then reachable_groups c (path @ [tag c]) else []) cs))"
proof (induction e sel path_opt and by_tag cs sel path
    rule: find_next_unselected_repeating_group_find_in_children.induct)
  case (1 t x cs selection path_prefix_opt)
  let ?path = "case path_prefix_opt of None \<Rightarrow> [t] | Some p \<Rightarrow> p"
  let ?code_here = "find (\<lambda>(group_key, _, _). map_of selection group_key = None)
                      (compute_repeating_group_keys (Element t x cs) ?path)"
  let ?here = "map (\<lambda>g. (?path @ [g], filter (\<lambda>c. tag c = g) cs))
                 (filter (\<lambda>g. 2 \<le> length (filter (\<lambda>c. tag c = g) cs)) (first_seen (map tag cs)))"
  let ?below = "concat (map (\<lambda>c. if length (filter (\<lambda>c'. tag c' = tag c) cs) = 1
                                 then reachable_groups c (?path @ [tag c]) else []) cs)"
  have here: "map_option (\<lambda>(group_key, _, cs'). (group_key, cs')) ?code_here
                = find (unselected selection) ?here"
    by (rule find_here)
  have lookup: "(case map_of (get_children_by_tag (Element t x cs)) (tag c) of
                   Some s \<Rightarrow> s | None \<Rightarrow> []) = filter (\<lambda>c'. tag c' = tag c) cs"
    if "c \<in> set cs" for c
    using that by (simp add: map_of_get_children_by_tag)
  have path: "(case path_prefix_opt of None \<Rightarrow> [tag (Element t x cs)] | Some p \<Rightarrow> p) = ?path"
    by (cases path_prefix_opt) simp_all
  show ?case
  proof (cases ?code_here)
    case None
    have "find_in_children (get_children_by_tag (Element t x cs)) cs selection ?path =
        find (unselected selection) ?below"
      using "1.IH" [OF refl None] lookup by (simp cong: map_cong)
    moreover from None here have "find (unselected selection) ?here = None" by simp
    ultimately show ?thesis using None
      by (simp add: find_app path del: find_in_children.simps)
  next
    case (Some g)
    obtain group_key tg cs' where g: "g = (group_key, tg, cs')" by (cases g)
    from Some here g have "find (unselected selection) ?here = Some (group_key, cs')" by simp
    with Some g show ?thesis by (simp add: find_app path del: find_in_children.simps)
  qed
next
  case (2 by_tag selection path_prefix)
  show ?case by simp
next
  case (3 by_tag child rest selection path_prefix)
  then show ?case by (simp add: find_app Let_def split: option.splits)
qed

lemma find_filter_hd:
  "find P xs = (case filter P xs of [] \<Rightarrow> None | x # _ \<Rightarrow> Some x)"
  by (induction xs) auto

lemma distinct_map_singletons:
  "(\<And>c. c \<in> set ds \<Longrightarrow> P c \<Longrightarrow> length (filter (\<lambda>c'. f c' = f c) ds) \<le> 1)
     \<Longrightarrow> distinct (map f (filter P ds))"
proof (induction ds)
  case Nil
  show ?case by simp
next
  case (Cons d ds)
  have "distinct (map f (filter P ds))"
  proof (rule Cons.IH)
    fix c assume "c \<in> set ds" and "P c"
    then have "length (filter (\<lambda>c'. f c' = f c) (d # ds)) \<le> 1"
      by (intro Cons.prems) simp_all
    then show "length (filter (\<lambda>c'. f c' = f c) ds) \<le> 1" by (simp split: if_splits)
  qed
  moreover have "f d \<notin> f ` set (filter P ds)" if "P d"
  proof -
    from that have "length (filter (\<lambda>c'. f c' = f d) (d # ds)) \<le> 1"
      by (intro Cons.prems) simp_all
    then have "filter (\<lambda>c'. f c' = f d) ds = []" by simp
    then show ?thesis by (auto simp: filter_empty_conv)
  qed
  ultimately show ?case by simp
qed

lemma reachable_groups_prefix:
  "(k, g) \<in> set (reachable_groups e path) \<Longrightarrow> \<exists>t ts. k = path @ t # ts"
proof (induction e path arbitrary: k g rule: reachable_groups.induct)
  case (1 t x cs path)
  from "1.prems" consider
      (here) tg where "k = path @ [tg]"
    | (below) c where "c \<in> set cs" "length (filter (\<lambda>c'. tag c' = tag c) cs) = 1"
        "(k, g) \<in> set (reachable_groups c (path @ [tag c]))"
    by (auto split: if_splits)
  then show ?case
  proof cases
    case here
    then show ?thesis by simp
  next
    case below
    from "1.IH" [OF below] obtain t' ts where "k = (path @ [tag c]) @ t' # ts" by blast
    then show ?thesis by simp
  qed
qed

lemma distinct_concat_keys:
  assumes "\<And>c. c \<in> set ds \<Longrightarrow> S c \<Longrightarrow> distinct (map fst (R c))"
    and "\<And>c k g. c \<in> set ds \<Longrightarrow> S c \<Longrightarrow> (k, g) \<in> set (R c) \<Longrightarrow> \<exists>ts. k = path @ tag c # ts"
    and "distinct (map tag (filter S ds))"
  shows "distinct (map fst (concat (map (\<lambda>c. if S c then R c else []) ds)))"
  using assms
proof (induction ds)
  case Nil
  show ?case by simp
next
  case (Cons d ds)
  have rest: "distinct (map fst (concat (map (\<lambda>c. if S c then R c else []) ds)))"
    using Cons.prems by (intro Cons.IH) (auto split: if_splits)
  show ?case
  proof (cases "S d")
    case False
    with rest show ?thesis by simp
  next
    case True
    have d: "distinct (map fst (R d))" using True Cons.prems(1) by simp
    have "fst ` set (R d) \<inter> fst ` set (concat (map (\<lambda>c. if S c then R c else []) ds)) = {}"
    proof (rule ccontr)
      assume "\<not> ?thesis"
      then obtain k g g' c where kd: "(k, g) \<in> set (R d)" and c: "c \<in> set ds" "S c"
        and kc: "(k, g') \<in> set (R c)"
        by (fastforce split: if_splits)
      from Cons.prems(2) [of d k g] True kd obtain ts where "k = path @ tag d # ts" by auto
      moreover from Cons.prems(2) [of c k g'] c kc obtain ts' where "k = path @ tag c # ts'"
        by auto
      ultimately have "tag d = tag c" by simp
      moreover from Cons.prems(3) True c have "tag d \<noteq> tag c" by auto
      ultimately show False by simp
    qed
    with True d rest show ?thesis by simp
  qed
qed

lemma distinct_reachable_groups: "distinct (map fst (reachable_groups e path))"
proof (induction e path rule: reachable_groups.induct)
  case (1 t x cs path)
  let ?S = "\<lambda>c. length (filter (\<lambda>c'. tag c' = tag c) cs) = 1"
  let ?R = "\<lambda>c. reachable_groups c (path @ [tag c])"
  let ?here = "map (\<lambda>g. (path @ [g], filter (\<lambda>c. tag c = g) cs))
                 (filter (\<lambda>g. 2 \<le> length (filter (\<lambda>c. tag c = g) cs)) (first_seen (map tag cs)))"
  let ?below = "concat (map (\<lambda>c. if ?S c then ?R c else []) cs)"
  have here: "distinct (map fst ?here)"
    by (simp add: distinct_map o_def inj_on_def)
  have below: "distinct (map fst ?below)"
  proof (rule distinct_concat_keys)
    fix c assume "c \<in> set cs" "?S c"
    then show "distinct (map fst (?R c))" by (rule "1.IH")
  next
    fix c k g assume "(k, g) \<in> set (?R c)"
    then obtain t' ts where "k = (path @ [tag c]) @ t' # ts"
      using reachable_groups_prefix by blast
    then show "\<exists>ts. k = path @ tag c # ts" by simp
  next
    show "distinct (map tag (filter ?S cs))"
      by (rule distinct_map_singletons) simp
  qed
  have "\<exists>tg. k = path @ [tg]" if "k \<in> fst ` set ?here" for k
    using that by auto
  moreover have "\<exists>t' t'' ts. k = path @ t' # t'' # ts" if "k \<in> fst ` set ?below" for k
  proof -
    from that obtain c g where "(k, g) \<in> set (?R c)" by (auto split: if_splits)
    then obtain t' ts where "k = (path @ [tag c]) @ t' # ts"
      using reachable_groups_prefix by blast
    then show ?thesis by simp
  qed
  ultimately have disj: "set (map fst ?here) \<inter> set (map fst ?below) = {}"
    unfolding set_map by fastforce
  have eq: "map fst (reachable_groups (Element t x cs) path) = map fst ?here @ map fst ?below"
    by simp
  show ?case unfolding eq distinct_append using here below disj by blast
qed

text \<open>
  The Cartesian expansion of a list of groups, in the order the worklist finalizes it:
  the stack is popped from its end, so the last index pushed is expanded first.
\<close>

fun expand_groups :: "(pathkey \<times> element list) list \<Rightarrow> selection \<Rightarrow> selection list" where
  "expand_groups [] sel = [sel]"
| "expand_groups ((group_key, cs) # gs) sel =
     concat (map (\<lambda>idx. expand_groups gs (AList.update group_key idx sel)) (rev [0..<length cs]))"

lemma unselected_update:
  assumes "distinct (map fst G)" and "filter (unselected sel) G = (group_key, cs) # gs"
  shows "filter (unselected (AList.update group_key idx sel)) G = gs"
proof -
  have "unselected (AList.update group_key idx sel) = (\<lambda>g. unselected sel g \<and> fst g \<noteq> group_key)"
    by (auto simp: unselected_def update_conv' fun_eq_iff)
  then have "filter (unselected (AList.update group_key idx sel)) G =
      filter (\<lambda>g. fst g \<noteq> group_key) (filter (unselected sel) G)"
    by simp
  also have "\<dots> = filter (\<lambda>g. fst g \<noteq> group_key) gs" using assms(2) by simp
  also have "\<dots> = gs"
  proof -
    from assms(1) have "distinct (map fst (filter (unselected sel) G))"
      by (rule distinct_map_filter)
    with assms(2) have "group_key \<notin> fst ` set gs" by simp
    then show ?thesis by (auto simp: filter_id_conv)
  qed
  finally show ?thesis .
qed

lemma expand_selections_top:
  assumes "filter (unselected sel) (reachable_groups row_elem [tag row_elem]) = gs"
  shows "expand_selections row_elem (rest @ [sel]) finalized =
         expand_selections row_elem rest (finalized @ expand_groups gs sel)"
  using assms
proof (induction gs arbitrary: sel rest finalized)
  case Nil
  then have "find_next_unselected_repeating_group row_elem sel None = None"
    by (simp add: find_next_reachable find_filter_hd)
  then show ?case by (subst expand_selections.simps) simp
next
  case (Cons g gs)
  obtain group_key cs where g: "g = (group_key, cs)" by (cases g)
  let ?upd = "\<lambda>idx. AList.update group_key idx sel"
  from Cons.prems g have found: "find_next_unselected_repeating_group row_elem sel None
      = Some (group_key, cs)"
    by (simp add: find_next_reachable find_filter_hd)
  have unsel: "filter (unselected (?upd idx)) (reachable_groups row_elem [tag row_elem]) = gs"
    for idx
    using distinct_reachable_groups Cons.prems [unfolded g] by (rule unselected_update)
  have pushed: "expand_selections row_elem (rest @ map ?upd idxs) fin =
      expand_selections row_elem rest
        (fin @ concat (map (\<lambda>idx. expand_groups gs (?upd idx)) (rev idxs)))"
    for idxs fin
  proof (induction idxs arbitrary: fin rule: rev_induct)
    case Nil
    show ?case by simp
  next
    case (snoc i idxs)
    have "expand_selections row_elem (rest @ map ?upd (idxs @ [i])) fin =
        expand_selections row_elem ((rest @ map ?upd idxs) @ [?upd i]) fin"
      by simp
    also have "\<dots> = expand_selections row_elem (rest @ map ?upd idxs)
        (fin @ expand_groups gs (?upd i))"
      using unsel by (rule Cons.IH)
    also have "\<dots> = expand_selections row_elem rest
        ((fin @ expand_groups gs (?upd i)) @
          concat (map (\<lambda>idx. expand_groups gs (?upd idx)) (rev idxs)))"
      by (rule snoc.IH)
    finally show ?case by simp
  qed
  have "expand_selections row_elem (rest @ [sel]) finalized =
      expand_selections row_elem (rest @ map ?upd [0..<length cs]) finalized"
    using found by (subst expand_selections.simps) simp
  with pushed [of "[0..<length cs]" finalized] g show ?case by simp
qed

lemma unselected_empty [simp]: "filter (unselected []) G = G"
  by (simp add: unselected_def)

lemma expand_selections_eq:
  "expand_selections row_elem [[]] [] =
     Some (expand_groups (reachable_groups row_elem [tag row_elem]) [])"
proof -
  have "expand_selections row_elem ([] @ [[]]) [] =
      expand_selections row_elem [] ([] @ expand_groups (reachable_groups row_elem [tag row_elem]) [])"
    by (rule expand_selections_top) simp
  then show ?thesis by (simp add: expand_selections.simps)
qed

lemma length_expand_groups:
  "length (expand_groups gs sel) = prod_list (map (\<lambda>g. length (snd g)) gs)"
proof (induction gs arbitrary: sel)
  case Nil
  show ?case by simp
next
  case (Cons g gs)
  obtain group_key cs where g: "g = (group_key, cs)" by (cases g)
  have "length (expand_groups (g # gs) sel) =
      sum_list (map (\<lambda>idx. length (expand_groups gs (AList.update group_key idx sel)))
                  (rev [0..<length cs]))"
    by (simp add: g length_concat o_def)
  also have "\<dots> = sum_list (map (\<lambda>idx. prod_list (map (\<lambda>g. length (snd g)) gs)) (rev [0..<length cs]))"
    by (simp add: Cons.IH)
  also have "\<dots> = length cs * prod_list (map (\<lambda>g. length (snd g)) gs)"
    by (simp add: sum_list_triv)
  finally show ?case by (simp add: g)
qed

lemma update_absent: "map_of al k = None \<Longrightarrow> AList.update k v al = al @ [(k, v)]"
  by (induction al) (auto split: if_splits)

lemma expand_selections_returns:
  "\<exists>result. expand_selections row_elem pending finalized = Some result"
proof (induction pending arbitrary: finalized rule: rev_induct)
  case Nil
  show ?case by (simp add: expand_selections.simps)
next
  case (snoc sel pending)
  have "expand_selections row_elem (pending @ [sel]) finalized =
      expand_selections row_elem pending
        (finalized @ expand_groups
           (filter (unselected sel) (reachable_groups row_elem [tag row_elem])) sel)"
    by (rule expand_selections_top) simp
  with snoc.IH show ?case by simp
qed

lemma find_next_unselected:
  assumes "find_next_unselected_repeating_group row_elem sel None = Some (group_key, cs)"
  shows "map_of sel group_key = None"
proof -
  from assms have "find (unselected sel) (reachable_groups row_elem [tag row_elem])
      = Some (group_key, cs)"
    by (simp add: find_next_reachable)
  then have "unselected sel (group_key, cs)" by (auto simp: find_Some_iff)
  then show ?thesis by (simp add: unselected_def)
qed

text \<open>
  C7. The worklist loop of the Selection Expander returns on every row element (for every
  worklist and every list of selections finalized so far); each expansion adds a group key
  that the popped selection did not hold, so the selection grows by one entry; and a row
  element with no nested repeating group finalizes exactly one selection, the empty one.
\<close>

theorem expand_selections_terminates:
  "(\<exists>result. expand_selections row_elem pending finalized = Some result) \<and>
   (\<forall>sel group_key cs idx.
      find_next_unselected_repeating_group row_elem sel None = Some (group_key, cs) \<longrightarrow>
      map_of sel group_key = None \<and>
      length (AList.update group_key idx sel) = Suc (length sel)) \<and>
   (reachable_groups row_elem [tag row_elem] = [] \<longrightarrow>
      expand_selections row_elem [[]] [] = Some [[]])"
proof (intro conjI allI impI)
  show "\<exists>result. expand_selections row_elem pending finalized = Some result"
    by (rule expand_selections_returns)
next
  fix sel group_key cs and idx :: nat
  assume "find_next_unselected_repeating_group row_elem sel None = Some (group_key, cs)"
  then show none: "map_of sel group_key = None" by (rule find_next_unselected)
  then show "length (AList.update group_key idx sel) = Suc (length sel)"
    by (simp add: update_absent)
next
  assume "reachable_groups row_elem [tag row_elem] = []"
  then show "expand_selections row_elem [[]] [] = Some [[]]"
    by (simp add: expand_selections_eq)
qed

theorem expand_selections_terminates_witness:
  "reachable_groups (Element ''b'' None [Element ''p'' (Some ''1'') []]) [''b''] = [] \<and>
   expand_selections (Element ''b'' None [Element ''p'' (Some ''1'') []]) [[]] [] = Some [[]] \<and>
   find_next_unselected_repeating_group
     (Element ''b'' None [Element ''c'' (Some ''1'') [], Element ''c'' (Some ''2'') []]) [] None
     = Some ([''b'', ''c''], [Element ''c'' (Some ''1'') [], Element ''c'' (Some ''2'') []]) \<and>
   map_of ([] :: selection) [''b'', ''c''] = None \<and>
   length (AList.update [''b'', ''c''] (0::nat) []) = Suc (length ([] :: selection))"
proof -
  let ?e0 = "Element ''b'' None [Element ''p'' (Some ''1'') []]"
  let ?e1 = "Element ''b'' None [Element ''c'' (Some ''1'') [], Element ''c'' (Some ''2'') []]"
  have h0: "reachable_groups ?e0 [tag ?e0] = []" by code_simp
  have h1: "find_next_unselected_repeating_group ?e1 [] None
      = Some ([''b'', ''c''], [Element ''c'' (Some ''1'') [], Element ''c'' (Some ''2'') []])"
    by code_simp
  from expand_selections_terminates [of ?e0 "[[]]" "[]"] h0
  have a: "expand_selections ?e0 [[]] [] = Some [[]]" by blast
  from expand_selections_terminates [of ?e1 "[[]]" "[]"] h1
  have b: "map_of ([] :: selection) [''b'', ''c''] = None \<and>
      length (AList.update [''b'', ''c''] (0::nat) []) = Suc (length ([] :: selection))"
    by blast
  from h0 h1 a b show ?thesis by simp
qed

section \<open>Rows per row element\<close>

lemma expand_groups_lookup:
  "s \<in> set (expand_groups gs sel) \<Longrightarrow> k \<notin> fst ` set gs \<Longrightarrow> map_of s k = map_of sel k"
proof (induction gs arbitrary: sel)
  case Nil
  then show ?case by simp
next
  case (Cons g gs)
  obtain group_key cs where g: "g = (group_key, cs)" by (cases g)
  from Cons.prems g obtain idx where "s \<in> set (expand_groups gs (AList.update group_key idx sel))"
    by auto
  moreover from Cons.prems have "k \<notin> fst ` set gs" by simp
  ultimately have "map_of s k = map_of (AList.update group_key idx sel) k" by (rule Cons.IH)
  moreover from Cons.prems g have "k \<noteq> group_key" by simp
  ultimately show ?case by (simp add: update_conv')
qed

lemma distinct_concat_map:
  assumes "distinct idxs"
    and "\<And>i. i \<in> set idxs \<Longrightarrow> distinct (f i)"
    and "\<And>i j. i \<in> set idxs \<Longrightarrow> j \<in> set idxs \<Longrightarrow> i \<noteq> j \<Longrightarrow> set (f i) \<inter> set (f j) = {}"
  shows "distinct (concat (map f idxs))"
  using assms
proof (induction idxs)
  case Nil
  show ?case by simp
next
  case (Cons i idxs)
  have "distinct (concat (map f idxs))" using Cons.prems by (intro Cons.IH) auto
  moreover have "distinct (f i)" using Cons.prems(2) by simp
  moreover have "set (f i) \<inter> set (f j) = {}" if "j \<in> set idxs" for j
    using that Cons.prems(1) by (intro Cons.prems(3)) auto
  ultimately show ?case by auto
qed

lemma distinct_expand_groups:
  "distinct (map fst gs) \<Longrightarrow> distinct (expand_groups gs sel)"
proof (induction gs arbitrary: sel)
  case Nil
  show ?case by simp
next
  case (Cons g gs)
  obtain group_key cs where g: "g = (group_key, cs)" by (cases g)
  from Cons.prems g have fresh: "group_key \<notin> fst ` set gs" and d: "distinct (map fst gs)"
    by simp_all
  let ?f = "\<lambda>idx. expand_groups gs (AList.update group_key idx sel)"
  have "distinct (concat (map ?f (rev [0..<length cs])))"
  proof (rule distinct_concat_map)
    show "distinct (rev [0..<length cs])" by simp
  next
    fix i show "distinct (?f i)" using d by (rule Cons.IH)
  next
    fix i j :: nat assume "i \<noteq> j"
    have look: "map_of s group_key = Some i" if "s \<in> set (?f i)" for s i
      using expand_groups_lookup [OF that fresh] by (simp add: update_conv')
    show "set (?f i) \<inter> set (?f j) = {}"
    proof (rule ccontr)
      assume "\<not> ?thesis"
      then obtain s where si: "s \<in> set (?f i)" and sj: "s \<in> set (?f j)" by blast
      from look [OF si] look [OF sj] \<open>i \<noteq> j\<close> show False by simp
    qed
  qed
  then show ?case by (simp add: g)
qed

lemma expand_groups_shape:
  assumes "distinct (map fst gs)" and "fst ` set gs \<inter> fst ` set sel = {}"
    and "s \<in> set (expand_groups gs sel)"
  shows "\<exists>idxs. s = sel @ zip (map fst gs) idxs \<and>
           list_all2 (\<lambda>idx g. idx < length (snd g)) idxs gs"
  using assms
proof (induction gs arbitrary: sel)
  case Nil
  then show ?case by simp
next
  case (Cons g gs)
  obtain group_key cs where g: "g = (group_key, cs)" by (cases g)
  from Cons.prems g obtain idx where idx: "idx < length cs"
    and s: "s \<in> set (expand_groups gs (AList.update group_key idx sel))"
    by auto
  from Cons.prems(2) g have "map_of sel group_key = None"
    by (auto simp: map_of_eq_None_iff)
  then have upd: "AList.update group_key idx sel = sel @ [(group_key, idx)]"
    by (rule update_absent)
  from Cons.prems g have "distinct (map fst gs)"
    and "fst ` set gs \<inter> fst ` set (sel @ [(group_key, idx)]) = {}"
    by auto
  with s upd obtain idxs where "s = (sel @ [(group_key, idx)]) @ zip (map fst gs) idxs"
    and "list_all2 (\<lambda>idx g. idx < length (snd g)) idxs gs"
    using Cons.IH [of "sel @ [(group_key, idx)]"] by auto
  with idx g have "s = sel @ zip (map fst (g # gs)) (idx # idxs) \<and>
      list_all2 (\<lambda>idx g. idx < length (snd g)) (idx # idxs) (g # gs)"
    by simp
  then show ?case by blast
qed

lemma reachable_groups_size:
  "(k, g) \<in> set (reachable_groups e path) \<Longrightarrow> 2 \<le> length g"
proof (induction e path arbitrary: k g rule: reachable_groups.induct)
  case (1 t x cs path)
  from "1.prems" consider
      (here) "2 \<le> length g"
    | (below) c where "c \<in> set cs" "length (filter (\<lambda>c'. tag c' = tag c) cs) = 1"
        "(k, g) \<in> set (reachable_groups c (path @ [tag c]))"
    by (auto split: if_splits)
  then show ?case
  proof cases
    case here
    then show ?thesis .
  next
    case below
    then show ?thesis by (rule "1.IH")
  qed
qed

lemma build_rows_rows:
  "\<exists>rows' hs'. build_rows row_elem row_parent row_tag cvs sels (rows, hs) = (rows @ rows', hs') \<and>
     length rows' = length sels \<and>
     (\<forall>k<length sels. \<exists>h. rows' ! k = fst (build_row row_elem row_parent row_tag cvs h (sels ! k)))"
proof (induction sels arbitrary: rows hs)
  case Nil
  show ?case by simp
next
  case (Cons sel sels)
  obtain row_map hs1 where row: "build_row row_elem row_parent row_tag cvs hs sel = (row_map, hs1)"
    by (cases "build_row row_elem row_parent row_tag cvs hs sel")
  from Cons.IH [of "rows @ [row_map]" hs1] obtain rows' hs'
    where rest: "build_rows row_elem row_parent row_tag cvs sels (rows @ [row_map], hs1)
                   = ((rows @ [row_map]) @ rows', hs')"
      and len: "length rows' = length sels"
      and nth: "\<forall>k<length sels. \<exists>h. rows' ! k = fst (build_row row_elem row_parent row_tag cvs h (sels ! k))"
    by blast
  have "build_rows row_elem row_parent row_tag cvs (sel # sels) (rows, hs)
      = (rows @ (row_map # rows'), hs')"
    using row rest by simp
  moreover have "length (row_map # rows') = length (sel # sels)" using len by simp
  moreover have "\<exists>h. (row_map # rows') ! k
      = fst (build_row row_elem row_parent row_tag cvs h ((sel # sels) ! k))"
    if "k < length (sel # sels)" for k
  proof (cases k)
    case 0
    with row show ?thesis by (auto intro: exI [of _ hs])
  next
    case (Suc k')
    with that nth show ?thesis by simp
  qed
  ultimately show ?case by blast
qed

lemma extract_rows_for_element_eq:
  "extract_rows_for_element row_elem row_parent row_tag hs =
     Some (build_rows row_elem row_parent row_tag (build_container_values row_parent row_tag)
             (expand_groups (reachable_groups row_elem [tag row_elem]) []) ([], hs))"
  by (simp add: extract_rows_for_element_def expand_selections_eq)

text \<open>
  C1. Row extraction returns for every row element, and the number of rows is the product
  of the sizes of the nested repeating groups reachable from it (\<open>reachable_groups\<close>:
  through singleton children only, as the Group Indexer searches), hence exactly one row
  when there is none. The rows correspond one to one, in order, to the finalized selections,
  which are pairwise distinct and each choose one valid child index for every reachable
  group: one row per combination of indices.
\<close>

theorem rows_are_cartesian_product:
  assumes G: "G = reachable_groups row_elem [tag row_elem]"
  shows "\<exists>sels rows hs'.
     expand_selections row_elem [[]] [] = Some sels \<and>
     extract_rows_for_element row_elem row_parent row_tag hs = Some (rows, hs') \<and>
     length rows = prod_list (map (\<lambda>g. length (snd g)) G) \<and>
     (G = [] \<longrightarrow> length rows = 1) \<and>
     length sels = length rows \<and> distinct sels \<and>
     (\<forall>sel \<in> set sels. \<exists>idxs. sel = zip (map fst G) idxs \<and>
                                 list_all2 (\<lambda>idx g. idx < length (snd g)) idxs G) \<and>
     (\<forall>k < length rows. \<exists>h.
        rows ! k = fst (build_row row_elem row_parent row_tag
                          (build_container_values row_parent row_tag) h (sels ! k)))"
proof -
  let ?sels = "expand_groups G []"
  let ?cvs = "build_container_values row_parent row_tag"
  from build_rows_rows [of row_elem row_parent row_tag ?cvs ?sels "[]" hs]
  obtain rows hs' where built: "build_rows row_elem row_parent row_tag ?cvs ?sels ([], hs) = (rows, hs')"
    and len: "length rows = length ?sels"
    and nth: "\<forall>k<length ?sels. \<exists>h. rows ! k = fst (build_row row_elem row_parent row_tag ?cvs h (?sels ! k))"
    by auto
  have dist: "distinct (map fst G)" unfolding G by (rule distinct_reachable_groups)
  have count: "length ?sels = prod_list (map (\<lambda>g. length (snd g)) G)"
    by (rule length_expand_groups)
  have "expand_selections row_elem [[]] [] = Some ?sels"
    unfolding G by (rule expand_selections_eq)
  moreover have "extract_rows_for_element row_elem row_parent row_tag hs = Some (rows, hs')"
    using built by (simp add: extract_rows_for_element_eq G)
  moreover have "length rows = prod_list (map (\<lambda>g. length (snd g)) G)"
    using len count by simp
  moreover have "G = [] \<longrightarrow> length rows = 1" using len by auto
  moreover have "length ?sels = length rows" using len by simp
  moreover have "distinct ?sels" using dist by (rule distinct_expand_groups)
  moreover have "\<forall>sel \<in> set ?sels. \<exists>idxs. sel = zip (map fst G) idxs \<and>
      list_all2 (\<lambda>idx g. idx < length (snd g)) idxs G"
    using expand_groups_shape [OF dist, of "[]"] by simp
  moreover have "\<forall>k < length rows. \<exists>h.
      rows ! k = fst (build_row row_elem row_parent row_tag ?cvs h (?sels ! k))"
    using nth len by simp
  ultimately show ?thesis by blast
qed

theorem rows_are_cartesian_product_witness:
  "reachable_groups
     (Element ''b'' None
        [Element ''c'' (Some ''1'') [], Element ''c'' (Some ''2'') [],
         Element ''d'' (Some ''7'') [], Element ''d'' (Some ''8'') [], Element ''d'' (Some ''9'') []])
     [''b'']
   = [([''b'', ''c''], [Element ''c'' (Some ''1'') [], Element ''c'' (Some ''2'') []]),
      ([''b'', ''d''], [Element ''d'' (Some ''7'') [], Element ''d'' (Some ''8'') [],
                        Element ''d'' (Some ''9'') []])] \<and>
   (\<exists>rows hs'.
      extract_rows_for_element
        (Element ''b'' None
           [Element ''c'' (Some ''1'') [], Element ''c'' (Some ''2'') [],
            Element ''d'' (Some ''7'') [], Element ''d'' (Some ''8'') [], Element ''d'' (Some ''9'') []])
        None ''b'' fresh_header = Some (rows, hs') \<and> length rows = 6) \<and>
   reachable_groups (Element ''b'' None [Element ''p'' (Some ''1'') []]) [''b''] = [] \<and>
   (\<exists>rows hs'.
      extract_rows_for_element (Element ''b'' None [Element ''p'' (Some ''1'') []])
        None ''b'' fresh_header = Some (rows, hs') \<and> length rows = 1)"
proof -
  let ?e = "Element ''b'' None
        [Element ''c'' (Some ''1'') [], Element ''c'' (Some ''2'') [],
         Element ''d'' (Some ''7'') [], Element ''d'' (Some ''8'') [], Element ''d'' (Some ''9'') []]"
  let ?G = "[([''b'', ''c''], [Element ''c'' (Some ''1'') [], Element ''c'' (Some ''2'') []]),
      ([''b'', ''d''], [Element ''d'' (Some ''7'') [], Element ''d'' (Some ''8'') [],
                        Element ''d'' (Some ''9'') []])]"
  let ?plain = "Element ''b'' None [Element ''p'' (Some ''1'') []]"
  have g: "reachable_groups ?e [''b''] = ?G" by (simp add: first_seen_def)
  then have h: "?G = reachable_groups ?e [tag ?e]" by simp
  have g0: "reachable_groups ?plain [''b''] = []" by (simp add: first_seen_def)
  then have h0: "[] = reachable_groups ?plain [tag ?plain]" by simp
  from rows_are_cartesian_product [OF h, of None "''b''" fresh_header]
  have a: "\<exists>rows hs'. extract_rows_for_element ?e None ''b'' fresh_header = Some (rows, hs') \<and>
      length rows = 6"
    by auto
  from rows_are_cartesian_product [OF h0, of None "''b''" fresh_header]
  have b: "\<exists>rows hs'. extract_rows_for_element ?plain None ''b'' fresh_header = Some (rows, hs') \<and>
      length rows = 1"
    by auto
  from g a g0 b show ?thesis by blast
qed

text \<open>
  A repeating group inside a child of a repeating group is not reachable: the Group
  Indexer descends into singleton children only. Here the two \<open>d\<close> below the first
  \<open>c\<close> are never selected, and the row element yields two rows, one per \<open>c\<close>; the
  leaves under the unselected \<open>d\<close> group are left out of the first.
\<close>

lemma group_inside_group_not_expanded:
  "reachable_groups
     (Element ''b'' None
        [Element ''c'' None [Element ''d'' (Some ''1'') [], Element ''d'' (Some ''2'') []],
         Element ''c'' None [Element ''p'' (Some ''3'') []]])
     [''b'']
   = [([''b'', ''c''],
       [Element ''c'' None [Element ''d'' (Some ''1'') [], Element ''d'' (Some ''2'') []],
        Element ''c'' None [Element ''p'' (Some ''3'') []]])] \<and>
   extract_rows_for_element
     (Element ''b'' None
        [Element ''c'' None [Element ''d'' (Some ''1'') [], Element ''d'' (Some ''2'') []],
         Element ''c'' None [Element ''p'' (Some ''3'') []]])
     None ''b'' fresh_header
   = Some ([[(''p'', ''3'')], []],
           \<lparr>header_order = [''p''], header_paths = [(''p'', [''b'', ''c'', ''p''])]\<rparr>)"
proof -
  have "reachable_groups
     (Element ''b'' None
        [Element ''c'' None [Element ''d'' (Some ''1'') [], Element ''d'' (Some ''2'') []],
         Element ''c'' None [Element ''p'' (Some ''3'') []]])
     [''b'']
   = [([''b'', ''c''],
       [Element ''c'' None [Element ''d'' (Some ''1'') [], Element ''d'' (Some ''2'') []],
        Element ''c'' None [Element ''p'' (Some ''3'') []]])]"
    by (simp add: first_seen_def)
  moreover have "extract_rows_for_element
     (Element ''b'' None
        [Element ''c'' None [Element ''d'' (Some ''1'') [], Element ''d'' (Some ''2'') []],
         Element ''c'' None [Element ''p'' (Some ''3'') []]])
     None ''b'' fresh_header
   = Some ([[(''p'', ''3'')], []],
           \<lparr>header_order = [''p''], header_paths = [(''p'', [''b'', ''c'', ''p''])]\<rparr>)"
    by code_simp
  ultimately show ?thesis by simp
qed

lemma expand_single_group:
  "expand_groups [(group_key, cs)] [] = map (\<lambda>idx. [(group_key, idx)]) (rev [0..<length cs])"
  by (simp add: o_def)

text \<open>
  C10. When exactly one nested repeating group, of \<open>N\<close> children, is reachable from the
  row element, then \<open>N \<ge> 2\<close>, the worklist finalizes the selections of the child indices
  \<open>N - 1, \<dots>, 0\<close> in that order, and the \<open>k\<close>-th of the \<open>N\<close> output rows is the row
  built for child index \<open>N - 1 - k\<close>: reverse child order.
\<close>

theorem single_group_rows_reversed:
  assumes "reachable_groups row_elem [tag row_elem] = [(group_key, cs)]"
  shows "\<exists>rows hs'.
     expand_selections row_elem [[]] []
       = Some (map (\<lambda>idx. [(group_key, idx)]) (rev [0..<length cs])) \<and>
     extract_rows_for_element row_elem row_parent row_tag hs = Some (rows, hs') \<and>
     2 \<le> length cs \<and> length rows = length cs \<and>
     (\<forall>k < length cs. \<exists>h.
        rows ! k = fst (build_row row_elem row_parent row_tag
                          (build_container_values row_parent row_tag) h
                          [(group_key, length cs - 1 - k)]))"
proof -
  let ?sels = "map (\<lambda>idx. [(group_key, idx)]) (rev [0..<length cs])"
  let ?cvs = "build_container_values row_parent row_tag"
  have sels: "expand_groups (reachable_groups row_elem [tag row_elem]) [] = ?sels"
    using assms by (simp only: expand_single_group)
  from build_rows_rows [of row_elem row_parent row_tag ?cvs ?sels "[]" hs]
  obtain rows hs' where built: "build_rows row_elem row_parent row_tag ?cvs ?sels ([], hs) = (rows, hs')"
    and len: "length rows = length cs"
    and nth: "\<forall>k<length cs. \<exists>h. rows ! k = fst (build_row row_elem row_parent row_tag ?cvs h (?sels ! k))"
    by auto
  have "?sels ! k = [(group_key, length cs - 1 - k)]" if "k < length cs" for k
    using that by (simp add: rev_nth)
  with nth have nth': "\<forall>k<length cs. \<exists>h.
      rows ! k = fst (build_row row_elem row_parent row_tag ?cvs h [(group_key, length cs - 1 - k)])"
    by simp
  have "(group_key, cs) \<in> set (reachable_groups row_elem [tag row_elem])" using assms by simp
  then have "2 \<le> length cs" by (rule reachable_groups_size)
  moreover have "expand_selections row_elem [[]] [] = Some ?sels"
    by (simp only: expand_selections_eq sels)
  moreover have "extract_rows_for_element row_elem row_parent row_tag hs = Some (rows, hs')"
    using built by (simp only: extract_rows_for_element_eq sels)
  ultimately show ?thesis using len nth' by blast
qed

theorem single_group_rows_reversed_witness:
  "reachable_groups
     (Element ''b'' None
        [Element ''c'' (Some ''1'') [], Element ''c'' (Some ''2'') [], Element ''c'' (Some ''3'') []])
     [''b'']
   = [([''b'', ''c''],
       [Element ''c'' (Some ''1'') [], Element ''c'' (Some ''2'') [], Element ''c'' (Some ''3'') []])] \<and>
   expand_selections
     (Element ''b'' None
        [Element ''c'' (Some ''1'') [], Element ''c'' (Some ''2'') [], Element ''c'' (Some ''3'') []])
     [[]] []
   = Some [[([''b'', ''c''], 2)], [([''b'', ''c''], 1)], [([''b'', ''c''], 0)]] \<and>
   extract_rows_for_element
     (Element ''b'' None
        [Element ''c'' (Some ''1'') [], Element ''c'' (Some ''2'') [], Element ''c'' (Some ''3'') []])
     None ''b'' fresh_header
   = Some ([[(''c'', ''3'')], [(''c'', ''2'')], [(''c'', ''1'')]],
           \<lparr>header_order = [''c''], header_paths = [(''c'', [''b'', ''c''])]\<rparr>)"
proof -
  let ?cs = "[Element ''c'' (Some ''1'') [], Element ''c'' (Some ''2'') [], Element ''c'' (Some ''3'') []]"
  let ?e = "Element ''b'' None ?cs"
  have g: "reachable_groups ?e [''b''] = [([''b'', ''c''], ?cs)]" by (simp add: first_seen_def)
  then have h: "reachable_groups ?e [tag ?e] = [([''b'', ''c''], ?cs)]" by simp
  from single_group_rows_reversed [OF h, of None "''b''" fresh_header]
  have "expand_selections ?e [[]] []
      = Some (map (\<lambda>idx. [([''b'', ''c''], idx)]) (rev [0..<length ?cs]))"
    by blast
  moreover have "map (\<lambda>idx. [([''b'', ''c''], idx)]) (rev [0..<length ?cs])
      = [[([''b'', ''c''], 2)], [([''b'', ''c''], 1)], [([''b'', ''c''], 0)]]"
    by code_simp
  moreover have "extract_rows_for_element ?e None ''b'' fresh_header
      = Some ([[(''c'', ''3'')], [(''c'', ''2'')], [(''c'', ''1'')]],
           \<lparr>header_order = [''c''], header_paths = [(''c'', [''b'', ''c''])]\<rparr>)"
    by code_simp
  ultimately show ?thesis using g by simp
qed

section \<open>Leaves with empty text\<close>

lemma set_update_cases:
  "(c, w) \<in> set (AList.update k v al) \<Longrightarrow> (c, w) = (k, v) \<or> (c, w) \<in> set al"
  by (induction al) (auto split: if_splits)

definition nonempty_values :: "row \<Rightarrow> bool" where
  "nonempty_values row_map = (\<forall>(col, v) \<in> set row_map. v \<noteq> [])"

lemma nonempty_values_update:
  "nonempty_values row_map \<Longrightarrow> v \<noteq> [] \<Longrightarrow> nonempty_values (AList.update col v row_map)"
  unfolding nonempty_values_def by (auto dest: set_update_cases)

lemma iter_scalar_leaves_leaf:
  "children node = [] \<Longrightarrow>
   iter_scalar_leaves node sel path_opt =
     [(case path_opt of None \<Rightarrow> [tag node] | Some p \<Rightarrow> p,
       strip (case text_of node of None \<Rightarrow> [] | Some s \<Rightarrow> s))]"
  by (subst iter_scalar_leaves.simps) simp

lemma add_leaf_value_empty:
  "add_leaf_value row_parent row_tag (hs, row_map) (path, []) = (hs, row_map)"
  by (simp add: add_leaf_value_def)

lemma add_container_leaf_empty:
  "add_container_leaf parent row_tag values (path, []) = values"
  by (simp add: add_container_leaf_def)

lemma add_container_leaf_nonempty:
  "nonempty_values values \<Longrightarrow> nonempty_values (add_container_leaf parent row_tag values leaf)"
  by (cases leaf) (simp add: add_container_leaf_def nonempty_values_update)

lemma foldl_invariant:
  "P s \<Longrightarrow> (\<And>s x. P s \<Longrightarrow> x \<in> set xs \<Longrightarrow> P (f s x)) \<Longrightarrow> P (foldl f s xs)"
  by (induction xs arbitrary: s) auto

lemma build_container_values_nonempty:
  "nonempty_values (build_container_values row_parent row_tag)"
proof (cases row_parent)
  case None
  then show ?thesis by (simp add: build_container_values_def nonempty_values_def)
next
  case (Some parent)
  have "nonempty_values (foldl (add_container_leaf parent row_tag) []
                           (iter_scalar_leaves parent [] None))"
    by (rule foldl_invariant) (simp_all add: nonempty_values_def add_container_leaf_nonempty
        [unfolded nonempty_values_def])
  with Some show ?thesis by (simp add: build_container_values_def)
qed

lemma add_container_value_nonempty:
  assumes "nonempty_values (snd st)" and "snd item \<noteq> []"
  shows "nonempty_values (snd (add_container_value row_parent st item))"
  using assms
  by (cases st; cases item) (simp add: add_container_value_def Let_def nonempty_values_update)

lemma add_leaf_value_nonempty:
  assumes "nonempty_values (snd st)"
  shows "nonempty_values (snd (add_leaf_value row_parent row_tag st leaf))"
  using assms
  by (cases st; cases leaf) (simp add: add_leaf_value_def Let_def nonempty_values_update)

lemma build_row_nonempty:
  assumes "nonempty_values cvs"
  shows "nonempty_values (fst (build_row row_elem row_parent row_tag cvs hs sel))"
proof -
  let ?st1 = "foldl (add_container_value row_parent) (hs, []) cvs"
  let ?st2 = "foldl (add_leaf_value row_parent row_tag) ?st1 (iter_scalar_leaves row_elem sel None)"
  have "nonempty_values (snd ?st1)"
  proof (rule foldl_invariant [where P = "\<lambda>st. nonempty_values (snd st)"])
    show "nonempty_values (snd (hs, []))" by (simp add: nonempty_values_def)
  next
    fix st :: "header_state \<times> row" and item
    assume "nonempty_values (snd st)" and "item \<in> set cvs"
    moreover from \<open>item \<in> set cvs\<close> assms have "snd item \<noteq> []"
      by (auto simp: nonempty_values_def)
    ultimately show "nonempty_values (snd (add_container_value row_parent st item))"
      by (simp add: add_container_value_nonempty)
  qed
  then have "nonempty_values (snd ?st2)"
    by (rule foldl_invariant [where P = "\<lambda>st. nonempty_values (snd st)"])
      (rule add_leaf_value_nonempty)
  moreover have "fst (build_row row_elem row_parent row_tag cvs hs sel) = snd ?st2"
    by (simp add: build_row_def split: prod.splits)
  ultimately show ?thesis by simp
qed

lemma extract_rows_nonempty:
  assumes "extract_rows_for_element row_elem row_parent row_tag hs = Some (rows, hs')"
    and "row_map \<in> set rows"
  shows "nonempty_values row_map"
proof -
  let ?cvs = "build_container_values row_parent row_tag"
  let ?sels = "expand_groups (reachable_groups row_elem [tag row_elem]) []"
  from assms(1) have built: "build_rows row_elem row_parent row_tag ?cvs ?sels ([], hs) = (rows, hs')"
    by (simp add: extract_rows_for_element_eq)
  from build_rows_rows [of row_elem row_parent row_tag ?cvs ?sels "[]" hs] built
  have len: "length rows = length ?sels"
    and nth: "\<forall>k<length ?sels. \<exists>h. rows ! k = fst (build_row row_elem row_parent row_tag ?cvs h (?sels ! k))"
    by auto
  from assms(2) obtain k where "k < length rows" and "rows ! k = row_map"
    by (auto simp: in_set_conv_nth)
  with len nth obtain h where "row_map = fst (build_row row_elem row_parent row_tag ?cvs h (?sels ! k))"
    by auto
  then show ?thesis by (simp add: build_row_nonempty build_container_values_nonempty)
qed

text \<open>
  \<open>strip\<close> at the white space outside ASCII that a character can hold, and at mixed
  white space around a value.
\<close>

lemma strip_examples:
  "strip [CHR 0xA0] = [] \<and> strip [CHR 0x85] = [] \<and>
   strip ([CHR 0xA0, CHR 0x09] @ ''a b'' @ [CHR 0x0A, CHR 0x85]) = ''a b'' \<and>
   strip '' '' = [] \<and> strip [] = []"
  by code_simp

text \<open>
  A node with zero children is a leaf and yields exactly its path with its trimmed text.
  A leaf whose trimmed text is empty is skipped before any column is named: in the
  row-subtree loop it leaves both the header state and the row unchanged, in
  \<open>build_container_values\<close> it adds no container value, and no row that row extraction
  returns holds an empty value.
\<close>

lemma empty_leaf_skipped:
  "(children node = [] \<longrightarrow>
      iter_scalar_leaves node sel path_opt =
        [(case path_opt of None \<Rightarrow> [tag node] | Some p \<Rightarrow> p,
          strip (case text_of node of None \<Rightarrow> [] | Some s \<Rightarrow> s))]) \<and>
   add_leaf_value row_parent row_tag (hs, row_map) (path, []) = (hs, row_map) \<and>
   add_container_leaf parent row_tag values (path, []) = values \<and>
   (\<forall>rows hs'.
      extract_rows_for_element row_elem row_parent row_tag hs = Some (rows, hs') \<longrightarrow>
      (\<forall>r \<in> set rows. \<forall>(col, v) \<in> set r. v \<noteq> []))"
proof (intro conjI allI impI)
  assume "children node = []"
  then show "iter_scalar_leaves node sel path_opt =
      [(case path_opt of None \<Rightarrow> [tag node] | Some p \<Rightarrow> p,
        strip (case text_of node of None \<Rightarrow> [] | Some s \<Rightarrow> s))]"
    by (rule iter_scalar_leaves_leaf)
next
  show "add_leaf_value row_parent row_tag (hs, row_map) (path, []) = (hs, row_map)"
    by (rule add_leaf_value_empty)
next
  show "add_container_leaf parent row_tag values (path, []) = values"
    by (rule add_container_leaf_empty)
next
  fix rows hs'
  assume "extract_rows_for_element row_elem row_parent row_tag hs = Some (rows, hs')"
  then have "nonempty_values r" if "r \<in> set rows" for r
    using that by (rule extract_rows_nonempty)
  then show "\<forall>r \<in> set rows. \<forall>(col, v) \<in> set r. v \<noteq> []"
    by (simp add: nonempty_values_def)
qed

text \<open>
  What holds of every extraction: while a row record is built, the header order never
  holds a name that is neither there from the start nor a key of the record, because
  each step that registers a column also writes a value under it. So every column that
  the extraction of a document adds to the header carries a non-empty value in one of
  the returned rows, and a column that only empty leaves name is never registered.
\<close>

definition header_within :: "string set \<Rightarrow> header_state \<times> row \<Rightarrow> bool" where
  "header_within H st = (set (header_order (fst st)) \<subseteq> H \<union> fst ` set (snd st))"

lemma register_column_order:
  "set (header_order (register_column col p hs)) \<subseteq> insert col (set (header_order hs))"
  by (auto simp: register_column_def)

lemma add_container_value_within:
  assumes "header_within H st"
  shows "header_within H (add_container_value row_parent st item)"
proof -
  obtain hs row_map where st: "st = (hs, row_map)" by (cases st)
  obtain candidate_name v where item: "item = (candidate_name, v)" by (cases item)
  obtain col p where step: "add_container_value row_parent st item =
      (register_column col p hs,
       if map_of row_map col = None then AList.update col v row_map else row_map)"
    by (simp add: st item add_container_value_def Let_def)
  let ?row = "if map_of row_map col = None then AList.update col v row_map else row_map"
  have "col \<in> fst ` set ?row" by (auto simp: dom_update map_of_eq_None_iff)
  moreover have "fst ` set row_map \<subseteq> fst ` set ?row" by (auto simp: dom_update)
  moreover from assms st have "set (header_order hs) \<subseteq> H \<union> fst ` set row_map"
    by (simp add: header_within_def)
  ultimately have "set (header_order (register_column col p hs)) \<subseteq> H \<union> fst ` set ?row"
    using register_column_order [of col p hs] by blast
  then have "header_within H (register_column col p hs, ?row)" by (simp add: header_within_def)
  with step show ?thesis by simp
qed

lemma add_leaf_value_within:
  assumes "header_within H st"
  shows "header_within H (add_leaf_value row_parent row_tag st leaf)"
proof -
  obtain hs row_map where st: "st = (hs, row_map)" by (cases st)
  obtain path s where leaf: "leaf = (path, s)" by (cases leaf)
  show ?thesis
  proof (cases "s = []")
    case True
    with assms st leaf show ?thesis by (simp add: add_leaf_value_empty)
  next
    case False
    then obtain col p where step: "add_leaf_value row_parent row_tag st leaf =
        (register_column col p hs, AList.update col s row_map)"
      by (simp add: st leaf add_leaf_value_def Let_def)
    from assms st have "set (header_order hs) \<subseteq> H \<union> fst ` set row_map"
      by (simp add: header_within_def)
    then have "set (header_order (register_column col p hs))
        \<subseteq> H \<union> fst ` set (AList.update col s row_map)"
      using register_column_order [of col p hs] by (auto simp: dom_update)
    then have "header_within H (register_column col p hs, AList.update col s row_map)"
      by (simp add: header_within_def)
    with step show ?thesis by simp
  qed
qed

lemma build_row_within:
  "set (header_order (snd (build_row row_elem row_parent row_tag cvs hs sel)))
     \<subseteq> set (header_order hs) \<union> fst ` set (fst (build_row row_elem row_parent row_tag cvs hs sel))"
proof -
  let ?H = "set (header_order hs)"
  let ?st1 = "foldl (add_container_value row_parent) (hs, []) cvs"
  let ?st2 = "foldl (add_leaf_value row_parent row_tag) ?st1 (iter_scalar_leaves row_elem sel None)"
  have "header_within ?H (hs, [])" by (simp add: header_within_def)
  then have "header_within ?H ?st1"
    by (rule foldl_invariant) (rule add_container_value_within)
  then have "header_within ?H ?st2"
    by (rule foldl_invariant) (rule add_leaf_value_within)
  moreover have "build_row row_elem row_parent row_tag cvs hs sel = (snd ?st2, fst ?st2)"
    by (simp add: build_row_def split: prod.splits)
  ultimately show ?thesis by (simp add: header_within_def)
qed

lemma build_rows_within:
  assumes "build_rows row_elem row_parent row_tag cvs sels (rows, hs) = (rows', hs')"
  shows "set (header_order hs') \<subseteq> set (header_order hs) \<union> (\<Union>r \<in> set rows'. fst ` set r)"
  using assms
proof (induction sels arbitrary: rows hs)
  case Nil
  then show ?case by auto
next
  case (Cons sel sels)
  obtain row_map hs1 where row: "build_row row_elem row_parent row_tag cvs hs sel = (row_map, hs1)"
    by (cases "build_row row_elem row_parent row_tag cvs hs sel")
  with Cons.prems have rest: "build_rows row_elem row_parent row_tag cvs sels (rows @ [row_map], hs1)
      = (rows', hs')"
    by simp
  then have "set (header_order hs') \<subseteq> set (header_order hs1) \<union> (\<Union>r \<in> set rows'. fst ` set r)"
    by (rule Cons.IH)
  moreover from build_row_within [of row_elem row_parent row_tag cvs hs sel] row
  have "set (header_order hs1) \<subseteq> set (header_order hs) \<union> fst ` set row_map" by simp
  moreover from build_rows_rows [of row_elem row_parent row_tag cvs sels "rows @ [row_map]" hs1] rest
  have "row_map \<in> set rows'" by auto
  ultimately show ?case by blast
qed

lemma extract_rows_within:
  assumes "extract_rows_for_element row_elem row_parent row_tag hs = Some (rows, hs')"
  shows "set (header_order hs') \<subseteq> set (header_order hs) \<union> (\<Union>r \<in> set rows. fst ` set r)"
  using assms build_rows_within by (simp add: extract_rows_for_element_eq)

lemma extract_row_elements_within:
  assumes "extract_row_elements row_elements row_parent row_tag (rows, hs) = Some (rows', hs')"
  shows "set rows \<subseteq> set rows' \<and>
         set (header_order hs') \<subseteq> set (header_order hs) \<union> (\<Union>r \<in> set rows'. fst ` set r) \<and>
         ((\<forall>r \<in> set rows. nonempty_values r) \<longrightarrow> (\<forall>r \<in> set rows'. nonempty_values r))"
  using assms
proof (induction row_elements arbitrary: rows hs)
  case Nil
  then have "rows' = rows" and "hs' = hs" by simp_all
  then show ?case by simp
next
  case (Cons row_elem row_elements)
  obtain extracted hs1
    where one: "extract_rows_for_element row_elem row_parent row_tag hs = Some (extracted, hs1)"
    using extract_rows_for_element_eq [of row_elem row_parent row_tag hs]
    by (cases "build_rows row_elem row_parent row_tag (build_container_values row_parent row_tag)
                 (expand_groups (reachable_groups row_elem [tag row_elem]) []) ([], hs)") simp
  with Cons.prems
  have rest: "extract_row_elements row_elements row_parent row_tag (rows @ extracted, hs1)
                = Some (rows', hs')"
    by simp
  note ih = Cons.IH [OF rest]
  from ih have sub: "set (rows @ extracted) \<subseteq> set rows'" by (rule conjunct1)
  from ih have hdr: "set (header_order hs')
      \<subseteq> set (header_order hs1) \<union> (\<Union>r \<in> set rows'. fst ` set r)"
    by (elim conjE)
  from ih have vals: "(\<forall>r \<in> set (rows @ extracted). nonempty_values r)
      \<longrightarrow> (\<forall>r \<in> set rows'. nonempty_values r)"
    by (elim conjE)
  from sub have rows: "set rows \<subseteq> set rows'" and ext: "set extracted \<subseteq> set rows'"
    by simp_all
  have one_hdr: "set (header_order hs1)
      \<subseteq> set (header_order hs) \<union> (\<Union>r \<in> set extracted. fst ` set r)"
    using one by (rule extract_rows_within)
  have "set (header_order hs') \<subseteq> set (header_order hs) \<union> (\<Union>r \<in> set rows'. fst ` set r)"
  proof
    fix col assume "col \<in> set (header_order hs')"
    with hdr have "col \<in> set (header_order hs1) \<or> col \<in> (\<Union>r \<in> set rows'. fst ` set r)"
      by blast
    then show "col \<in> set (header_order hs) \<union> (\<Union>r \<in> set rows'. fst ` set r)"
    proof
      assume "col \<in> set (header_order hs1)"
      with one_hdr have "col \<in> set (header_order hs) \<or>
          col \<in> (\<Union>r \<in> set extracted. fst ` set r)"
        by blast
      then show ?thesis
      proof
        assume "col \<in> set (header_order hs)"
        then show ?thesis by (rule UnI1)
      next
        assume "col \<in> (\<Union>r \<in> set extracted. fst ` set r)"
        then obtain r where "r \<in> set extracted" and "col \<in> fst ` set r" by (rule UN_E)
        with ext have "r \<in> set rows'" and "col \<in> fst ` set r" by blast+
        then have "col \<in> (\<Union>r \<in> set rows'. fst ` set r)" by (rule UN_I)
        then show ?thesis by (rule UnI2)
      qed
    next
      assume "col \<in> (\<Union>r \<in> set rows'. fst ` set r)"
      then show ?thesis by (rule UnI2)
    qed
  qed
  moreover have "(\<forall>r \<in> set rows. nonempty_values r) \<longrightarrow> (\<forall>r \<in> set rows'. nonempty_values r)"
  proof
    assume given: "\<forall>r \<in> set rows. nonempty_values r"
    have "\<forall>r \<in> set (rows @ extracted). nonempty_values r"
    proof
      fix r assume "r \<in> set (rows @ extracted)"
      then have "r \<in> set rows \<or> r \<in> set extracted" by simp
      then show "nonempty_values r"
      proof
        assume "r \<in> set rows"
        with given show ?thesis by (rule bspec)
      next
        assume "r \<in> set extracted"
        with one show ?thesis by (rule extract_rows_nonempty)
      qed
    qed
    with vals show "\<forall>r \<in> set rows'. nonempty_values r" by (rule mp)
  qed
  ultimately show ?case using rows by (intro conjI)
qed

lemma new_columns_hold_values:
  assumes "extract_table_from_file root hs = Some (rows, hs')"
    and "col \<in> set (header_order hs')" and "col \<notin> set (header_order hs)"
  shows "\<exists>r \<in> set rows. \<exists>v. (col, v) \<in> set r \<and> v \<noteq> []"
proof -
  obtain row_parent row_tag row_elements
    where "find_row_parent_and_tag root = (row_parent, row_tag, row_elements)"
    by (cases "find_row_parent_and_tag root")
  with assms(1) have "extract_row_elements row_elements row_parent row_tag ([], hs) = Some (rows, hs')"
    by (simp add: extract_table_from_file_def)
  from extract_row_elements_within [OF this]
  have hdr: "set (header_order hs') \<subseteq> set (header_order hs) \<union> (\<Union>r \<in> set rows. fst ` set r)"
    and vals: "\<forall>r \<in> set rows. nonempty_values r"
    by simp_all
  from hdr assms(2,3) obtain r v where r: "r \<in> set rows" and cv: "(col, v) \<in> set r" by fastforce
  from vals r cv have "v \<noteq> []" by (auto simp: nonempty_values_def)
  with r cv show ?thesis by blast
qed

text \<open>
  C5. Every node with zero children is a leaf that yields its trimmed text, and an empty
  value is kept out of the rows; the claim adds that such an empty leaf may still register
  a header entry when it is the first leaf to name its column, as the module docstring has
  the header hold every encountered leaf field name. The code does not do that: in a
  document whose first leaf \<open>n\<close> has no text, or only white space, and whose second leaf
  \<open>m\<close> has the text \<open>1\<close>, the leaf \<open>n\<close> is yielded with the empty text and skipped
  before its column is named, and the header is \<open>[m]\<close>, not \<open>[n, m]\<close>.
\<close>

theorem empty_leaf_registers_no_header:
  "extract_table_from_file
     (Element ''b'' None [Element ''n'' None [], Element ''m'' (Some ''1'') []])
     fresh_header
   = Some ([[(''m'', ''1'')]],
           \<lparr>header_order = [''m''], header_paths = [(''m'', [''b'', ''m''])]\<rparr>) \<and>
   iter_scalar_leaves
     (Element ''b'' None [Element ''n'' (Some '' '') [], Element ''m'' (Some ''1'') []]) [] None
   = [([''b'', ''n''], ''''), ([''b'', ''m''], ''1'')] \<and>
   extract_table_from_file
     (Element ''b'' None [Element ''n'' (Some '' '') [], Element ''m'' (Some ''1'') []])
     fresh_header
   = Some ([[(''m'', ''1'')]],
           \<lparr>header_order = [''m''], header_paths = [(''m'', [''b'', ''m''])]\<rparr>)"
  by code_simp

section \<open>Column Namer: the code at the inputs where it leaves the specification\<close>

text \<open>
  C3. Two row elements \<open>b\<close>, each with the leaves \<open>b/n\<close> and \<open>b/x/n\<close>. In the first
  row the path \<open>b/x/n\<close> collides with \<open>n\<close> and is bound to its dotted name
  \<open>b.x.n\<close>. In the second row the same path is not given \<open>b.x.n\<close> again:
  \<open>disambiguate_column_name\<close> finds the dotted name taken, does not look at the path it
  is bound to, and returns the fresh name \<open>b.x.n_2\<close>.
\<close>

theorem repeated_collision_gets_fresh_name:
  "extract_table_from_file
     (Element ''a'' None
        [Element ''b'' None
           [Element ''n'' (Some ''1'') [], Element ''x'' None [Element ''n'' (Some ''2'') []]],
         Element ''b'' None
           [Element ''n'' (Some ''3'') [], Element ''x'' None [Element ''n'' (Some ''4'') []]]])
     fresh_header
   = Some ([[(''n'', ''1''), (''b.x.n'', ''2'')], [(''n'', ''3''), (''b.x.n_2'', ''4'')]],
           \<lparr>header_order = [''n'', ''b.x.n'', ''b.x.n_2''],
              header_paths = [(''n'', [''b'', ''n'']), (''b.x.n'', [''b'', ''x'', ''n'']),
                              (''b.x.n_2'', [''b'', ''x'', ''n''])]\<rparr>)"
  by code_simp

text \<open>
  C2. The row parent \<open>a\<close> has two container leaves with the same tag at different
  paths, \<open>a/x/n\<close> and \<open>a/y/n\<close>. \<open>build_container_values\<close> keys both by the leaf tag
  alone, so the second value overwrites the first before any name is disambiguated: one
  column \<open>n\<close> carries the value \<open>2\<close>, the value \<open>1\<close> is lost, and the column is
  bound to the path \<open>a/n\<close>, which is the path of neither leaf.
\<close>

theorem container_values_overwritten:
  "iter_scalar_leaves
     (Element ''a'' None
        [Element ''x'' None [Element ''n'' (Some ''1'') []],
         Element ''y'' None [Element ''n'' (Some ''2'') []],
         Element ''b'' None [Element ''f'' (Some ''u'') []],
         Element ''b'' None [Element ''f'' (Some ''v'') []]]) [] None
   = [([''a'', ''x'', ''n''], ''1''), ([''a'', ''y'', ''n''], ''2'')] \<and>
   extract_table_from_file
     (Element ''a'' None
        [Element ''x'' None [Element ''n'' (Some ''1'') []],
         Element ''y'' None [Element ''n'' (Some ''2'') []],
         Element ''b'' None [Element ''f'' (Some ''u'') []],
         Element ''b'' None [Element ''f'' (Some ''v'') []]])
     fresh_header
   = Some ([[(''n'', ''2''), (''f'', ''u'')], [(''n'', ''2''), (''f'', ''v'')]],
           \<lparr>header_order = [''n'', ''f''],
              header_paths = [(''n'', [''a'', ''n'']), (''f'', [''b'', ''f''])]\<rparr>)"
  by code_simp

section \<open>Row Assembler: container values against row-subtree values\<close>

lemma add_leaf_value_split:
  assumes "map_of row_a = map_of row_map ++ map_of sub_a"
  shows "fst (add_leaf_value row_parent row_tag (hs, row_a) leaf)
           = fst (add_leaf_value row_parent row_tag (hs, sub_a) leaf) \<and>
         map_of (snd (add_leaf_value row_parent row_tag (hs, row_a) leaf))
           = map_of row_map ++ map_of (snd (add_leaf_value row_parent row_tag (hs, sub_a) leaf))"
  using assms by (cases leaf) (simp add: add_leaf_value_def Let_def update_conv')

lemma subtree_values_split:
  "fst (foldl (add_leaf_value row_parent row_tag) (hs, row_map) leaves)
     = fst (foldl (add_leaf_value row_parent row_tag) (hs, []) leaves) \<and>
   map_of (snd (foldl (add_leaf_value row_parent row_tag) (hs, row_map) leaves))
     = map_of row_map ++ map_of (snd (foldl (add_leaf_value row_parent row_tag) (hs, []) leaves))"
proof (induction leaves rule: rev_induct)
  case Nil
  show ?case by simp
next
  case (snoc leaf leaves)
  obtain hs_a row_a where a: "foldl (add_leaf_value row_parent row_tag) (hs, row_map) leaves = (hs_a, row_a)"
    by (cases "foldl (add_leaf_value row_parent row_tag) (hs, row_map) leaves")
  obtain hs_b sub_a where b: "foldl (add_leaf_value row_parent row_tag) (hs, []) leaves = (hs_b, sub_a)"
    by (cases "foldl (add_leaf_value row_parent row_tag) (hs, []) leaves")
  from snoc a b have "hs_b = hs_a" and "map_of row_a = map_of row_map ++ map_of sub_a"
    by simp_all
  with add_leaf_value_split [of row_a row_map sub_a row_parent row_tag hs_a leaf] a b
  show ?case by simp
qed

text \<open>
  C6. A row record is built by merging the container values first and the row-subtree
  values second: as a map it is the container record overridden by the record of the
  row-subtree values, so wherever both have a value for a column name, the record holds
  the row-subtree value.
\<close>

theorem row_subtree_values_win:
  assumes "build_row row_elem row_parent row_tag container_values hs sel = (row_map, hs')"
    and "foldl (add_container_value row_parent) (hs, []) container_values = (hs1, container_row)"
    and "foldl (add_leaf_value row_parent row_tag) (hs1, [])
           (iter_scalar_leaves row_elem sel None) = (hs2, subtree_row)"
  shows "map_of row_map = map_of container_row ++ map_of subtree_row \<and>
         (\<forall>col v w. map_of container_row col = Some v \<and> map_of subtree_row col = Some w
             \<longrightarrow> map_of row_map col = Some w)"
proof -
  from assms(1,2) have "row_map = snd (foldl (add_leaf_value row_parent row_tag) (hs1, container_row)
      (iter_scalar_leaves row_elem sel None))"
    by (auto simp: build_row_def split: prod.splits)
  with subtree_values_split [of row_parent row_tag hs1 container_row
      "iter_scalar_leaves row_elem sel None"] assms(3)
  have "map_of row_map = map_of container_row ++ map_of subtree_row" by simp
  then show ?thesis by (simp add: map_add_def)
qed

theorem row_subtree_values_win_witness:
  "build_row (Element ''b'' None [Element ''n'' (Some ''1'') []])
     (Some (Element ''b'' None
        [Element ''n'' (Some ''X'') [],
         Element ''b'' None [Element ''n'' (Some ''1'') []],
         Element ''b'' None [Element ''n'' (Some ''2'') []]]))
     ''b'' [(''n'', ''X'')] fresh_header []
   = ([(''n'', ''1'')], \<lparr>header_order = [''n''], header_paths = [(''n'', [''b'', ''n''])]\<rparr>) \<and>
   foldl (add_container_value (Some (Element ''b'' None
        [Element ''n'' (Some ''X'') [],
         Element ''b'' None [Element ''n'' (Some ''1'') []],
         Element ''b'' None [Element ''n'' (Some ''2'') []]])))
     (fresh_header, []) [(''n'', ''X'')]
   = (\<lparr>header_order = [''n''], header_paths = [(''n'', [''b'', ''n''])]\<rparr>, [(''n'', ''X'')]) \<and>
   foldl (add_leaf_value (Some (Element ''b'' None
        [Element ''n'' (Some ''X'') [],
         Element ''b'' None [Element ''n'' (Some ''1'') []],
         Element ''b'' None [Element ''n'' (Some ''2'') []]])) ''b'')
     (\<lparr>header_order = [''n''], header_paths = [(''n'', [''b'', ''n''])]\<rparr>, [])
     (iter_scalar_leaves (Element ''b'' None [Element ''n'' (Some ''1'') []]) [] None)
   = (\<lparr>header_order = [''n''], header_paths = [(''n'', [''b'', ''n''])]\<rparr>, [(''n'', ''1'')]) \<and>
   map_of [(''n'', ''X'')] ''n'' = Some ''X'' \<and> map_of [(''n'', ''1'')] ''n'' = Some ''1'' \<and>
   map_of [(''n'', ''1'')] ''n'' = Some ''1''"
proof -
  let ?parent = "Element ''b'' None
        [Element ''n'' (Some ''X'') [],
         Element ''b'' None [Element ''n'' (Some ''1'') []],
         Element ''b'' None [Element ''n'' (Some ''2'') []]]"
  let ?row_elem = "Element ''b'' None [Element ''n'' (Some ''1'') []]"
  let ?hs = "\<lparr>header_order = [''n''], header_paths = [(''n'', [''b'', ''n''])]\<rparr>"
  have a: "build_row ?row_elem (Some ?parent) ''b'' [(''n'', ''X'')] fresh_header []
      = ([(''n'', ''1'')], ?hs)"
    by code_simp
  have b: "foldl (add_container_value (Some ?parent)) (fresh_header, []) [(''n'', ''X'')]
      = (?hs, [(''n'', ''X'')])"
    by code_simp
  have c: "foldl (add_leaf_value (Some ?parent) ''b'') (?hs, [])
      (iter_scalar_leaves ?row_elem [] None) = (?hs, [(''n'', ''1'')])"
    by code_simp
  have d: "map_of [(''n'', ''X'')] ''n'' = Some ''X'' \<and> map_of [(''n'', ''1'')] ''n'' = Some ''1''"
    by simp
  from row_subtree_values_win [OF a b c] d
  have "map_of [(''n'', ''1'')] ''n'' = Some ''1''" by blast
  with a b c d show ?thesis by blast
qed

section \<open>Whole documents\<close>

lemma extract_row_elements_returns:
  "\<exists>result. extract_row_elements row_elements row_parent row_tag st = Some result"
proof (induction row_elements arbitrary: st)
  case Nil
  show ?case by simp
next
  case (Cons row_elem row_elements)
  obtain rows hs where st: "st = (rows, hs)" by (cases st)
  obtain extracted hs' where "extract_rows_for_element row_elem row_parent row_tag hs
      = Some (extracted, hs')"
    by (simp add: extract_rows_for_element_eq) (metis surj_pair)
  with Cons.IH [of "(rows @ extracted, hs')"] st show ?case by simp
qed

lemma extract_table_from_file_returns:
  "\<exists>rows hs'. extract_table_from_file root hs = Some (rows, hs')"
proof -
  obtain row_parent row_tag row_elements
    where "find_row_parent_and_tag root = (row_parent, row_tag, row_elements)"
    by (cases "find_row_parent_and_tag root")
  with extract_row_elements_returns [of row_elements row_parent row_tag "([], hs)"]
  show ?thesis by (auto simp: extract_table_from_file_def)
qed

text \<open>
  C9. Run on the same document against two fresh header states (both with an empty
  header order and no bound path), the extraction returns both times, with the same rows
  and the same header order.
\<close>

theorem extraction_is_deterministic:
  assumes "header_order hs1 = [] \<and> header_paths hs1 = []"
    and "header_order hs2 = [] \<and> header_paths hs2 = []"
  shows "\<exists>rows hs1' hs2'.
           extract_table_from_file root hs1 = Some (rows, hs1') \<and>
           extract_table_from_file root hs2 = Some (rows, hs2') \<and>
           header_order hs1' = header_order hs2'"
proof -
  from assms have "hs1 = hs2" by simp
  moreover obtain rows hs' where "extract_table_from_file root hs1 = Some (rows, hs')"
    using extract_table_from_file_returns by blast
  ultimately show ?thesis by blast
qed

theorem extraction_is_deterministic_witness:
  "(header_order fresh_header = [] \<and> header_paths fresh_header = []) \<and>
   extract_table_from_file
     (Element ''a'' None
        [Element ''fa1'' (Some ''X'') [],
         Element ''b'' None [Element ''fb1'' (Some ''1'') []],
         Element ''b'' None [Element ''fb1'' (Some ''2'') []]])
     fresh_header
   = Some ([[(''fa1'', ''X''), (''fb1'', ''1'')], [(''fa1'', ''X''), (''fb1'', ''2'')]],
           \<lparr>header_order = [''fa1'', ''fb1''],
              header_paths = [(''fa1'', [''a'', ''fa1'']), (''fb1'', [''b'', ''fb1''])]\<rparr>)"
proof -
  let ?root = "Element ''a'' None
        [Element ''fa1'' (Some ''X'') [],
         Element ''b'' None [Element ''fb1'' (Some ''1'') []],
         Element ''b'' None [Element ''fb1'' (Some ''2'') []]]"
  have h: "header_order fresh_header = [] \<and> header_paths fresh_header = []"
    by (simp add: fresh_header_def)
  from extraction_is_deterministic [OF h h, of ?root]
  obtain rows hs1' where "extract_table_from_file ?root fresh_header = Some (rows, hs1')"
    by blast
  moreover have "extract_table_from_file ?root fresh_header
      = Some ([[(''fa1'', ''X''), (''fb1'', ''1'')], [(''fa1'', ''X''), (''fb1'', ''2'')]],
           \<lparr>header_order = [''fa1'', ''fb1''],
              header_paths = [(''fa1'', [''a'', ''fa1'']), (''fb1'', [''b'', ''fb1''])]\<rparr>)"
    by code_simp
  ultimately show ?thesis using h by simp
qed

section \<open>Merging documents in different orders\<close>

text \<open>
  Two one-row documents whose leaves share the tag \<open>n\<close> at different paths, merged in
  both orders: whichever comes first takes the column \<open>n\<close>, the other gets its dotted
  name, so the two runs differ in their sets of columns and in the column that holds
  each value.
\<close>

theorem merge_order_counterexample:
  "merge_inputs [Element ''b'' None [Element ''n'' (Some ''1'') []],
                 Element ''c'' None [Element ''n'' (Some ''3'') []]] ([], fresh_header)
   = Some ([[(''n'', ''1'')], [(''c.n'', ''3'')]],
           \<lparr>header_order = [''n'', ''c.n''],
              header_paths = [(''n'', [''b'', ''n'']), (''c.n'', [''c'', ''n''])]\<rparr>) \<and>
   merge_inputs [Element ''c'' None [Element ''n'' (Some ''3'') []],
                 Element ''b'' None [Element ''n'' (Some ''1'') []]] ([], fresh_header)
   = Some ([[(''n'', ''3'')], [(''b.n'', ''1'')]],
           \<lparr>header_order = [''n'', ''b.n''],
              header_paths = [(''n'', [''c'', ''n'']), (''b.n'', [''b'', ''n''])]\<rparr>) \<and>
   set [''n'', ''c.n''] \<noteq> set [''n'', ''b.n'']"
  by code_simp

text \<open>
  What a document asks of the Column Namer: for every row record it builds, the default
  column name and the path of each container value (the path the code makes up for it,
  row parent's tag then the name) and of each row-subtree leaf with non-empty text (its
  effective path, as \<open>extract_rows_for_element\<close> shortens it).
\<close>

definition effective_path :: "element option \<Rightarrow> string \<Rightarrow> pathkey \<Rightarrow> pathkey" where
  "effective_path row_parent row_tag path =
     (if length path \<ge> 2 \<and>
         (case row_parent of Some parent \<Rightarrow> path ! 0 = tag parent \<and> path ! 1 = row_tag
                           | None \<Rightarrow> False)
      then tl path else path)"

definition container_path :: "element option \<Rightarrow> string \<Rightarrow> pathkey" where
  "container_path row_parent candidate_name =
     (case row_parent of Some parent \<Rightarrow> [tag parent, candidate_name]
                       | None \<Rightarrow> [candidate_name])"

definition row_requests ::
  "element \<Rightarrow> element option \<Rightarrow> string \<Rightarrow> row \<Rightarrow> selection \<Rightarrow> (string \<times> pathkey) list" where
  "row_requests row_elem row_parent row_tag container_values sel =
     map (\<lambda>(candidate_name, v). (candidate_name, container_path row_parent candidate_name))
       container_values
     @ map (\<lambda>(path, text). (last (effective_path row_parent row_tag path),
                              effective_path row_parent row_tag path))
         (filter (\<lambda>(path, text). text \<noteq> []) (iter_scalar_leaves row_elem sel None))"

definition element_requests ::
  "element \<Rightarrow> element option \<Rightarrow> string \<Rightarrow> (string \<times> pathkey) list" where
  "element_requests row_elem row_parent row_tag =
     (case expand_selections row_elem [[]] [] of
        None \<Rightarrow> []
      | Some finalized \<Rightarrow>
          concat (map (row_requests row_elem row_parent row_tag
                         (build_container_values row_parent row_tag)) finalized))"

definition name_requests :: "element \<Rightarrow> (string \<times> pathkey) list" where
  "name_requests root =
     (case find_row_parent_and_tag root of
        (row_parent, row_tag, row_elements) \<Rightarrow>
          concat (map (\<lambda>row_elem. element_requests row_elem row_parent row_tag) row_elements))"

text \<open>
  A list of documents is collision free when no default name is requested for two
  different paths anywhere in it.
\<close>

definition collision_free :: "element list \<Rightarrow> bool" where
  "collision_free docs =
     (let requests = concat (map name_requests docs) in
      list_all (\<lambda>(c, p). list_all (\<lambda>(c', p'). if c = c' then p = p' else True) requests)
        requests)"

text \<open>
  A header state agrees with a naming \<open>N\<close> when its order lists exactly the bound names
  and every name is bound to the path \<open>N\<close> gives it. While requests agree with \<open>N\<close> too,
  no name is ever disambiguated and each step only registers the default name.
\<close>

definition header_agrees :: "(string \<Rightarrow> pathkey) \<Rightarrow> header_state \<Rightarrow> bool" where
  "header_agrees N hs =
     (set (header_order hs) = fst ` set (header_paths hs) \<and>
      (\<forall>(c, p) \<in> set (header_paths hs). N c = p))"

definition register_all :: "(string \<times> pathkey) list \<Rightarrow> header_state \<Rightarrow> header_state" where
  "register_all requests hs = foldl (\<lambda>h (c, p). register_column c p h) hs requests"

lemma register_all_append [simp]:
  "register_all (xs @ ys) hs = register_all ys (register_all xs hs)"
  by (simp add: register_all_def)

lemma register_all_Nil [simp]: "register_all [] hs = hs"
  by (simp add: register_all_def)

lemma register_all_Cons [simp]:
  "register_all ((c, p) # xs) hs = register_all xs (register_column c p hs)"
  by (simp add: register_all_def)

lemma register_column_agrees:
  assumes "header_agrees N hs" and "N c = p"
  shows "header_agrees N (register_column c p hs)"
    and "set (header_order (register_column c p hs)) = insert c (set (header_order hs))"
proof -
  show "header_agrees N (register_column c p hs)"
    using assms
    by (auto simp: header_agrees_def register_column_def dom_update map_of_eq_None_iff
        dest: set_update_cases)
  show "set (header_order (register_column c p hs)) = insert c (set (header_order hs))"
    using assms
    by (auto simp: header_agrees_def register_column_def map_of_eq_None_iff)
qed

lemma register_all_agrees:
  assumes "header_agrees N hs" and "\<forall>(c, p) \<in> set requests. N c = p"
  shows "header_agrees N (register_all requests hs) \<and>
         set (header_order (register_all requests hs)) = set (header_order hs) \<union> fst ` set requests"
  using assms
proof (induction requests arbitrary: hs)
  case Nil
  then show ?case by simp
next
  case (Cons r requests)
  obtain c p where r: "r = (c, p)" by (cases r)
  with Cons.prems have "N c = p" by simp
  with Cons.prems(1) have "header_agrees N (register_column c p hs)"
    and "set (header_order (register_column c p hs)) = insert c (set (header_order hs))"
    by (rule register_column_agrees)+
  moreover from Cons.prems have "\<forall>(c, p) \<in> set requests. N c = p" by simp
  ultimately show ?case using Cons.IH [of "register_column c p hs"] r by auto
qed

lemma agrees_lookup:
  "header_agrees N hs \<Longrightarrow> map_of (header_paths hs) c = Some p \<Longrightarrow> N c = p"
  by (auto simp: header_agrees_def dest: map_of_SomeD)

lemma add_container_value_agrees:
  assumes "header_agrees N hs" and "N c = container_path row_parent c"
  shows "add_container_value row_parent (hs, row_map) (c, v) =
           (register_column c (container_path row_parent c) hs,
            if map_of row_map c = None then AList.update c v row_map else row_map)"
proof -
  have "map_of (header_paths hs) c = None \<or>
        map_of (header_paths hs) c = Some (container_path row_parent c)"
    using agrees_lookup [OF assms(1)] assms(2) by (cases "map_of (header_paths hs) c") auto
  then show ?thesis
    by (cases row_parent) (auto simp: add_container_value_def container_path_def)
qed

lemma add_leaf_value_agrees:
  assumes "header_agrees N hs" and "text \<noteq> []"
    and "N (last (effective_path row_parent row_tag path)) = effective_path row_parent row_tag path"
  shows "add_leaf_value row_parent row_tag (hs, row_map) (path, text) =
           (register_column (last (effective_path row_parent row_tag path))
              (effective_path row_parent row_tag path) hs,
            AList.update (last (effective_path row_parent row_tag path)) text row_map)"
proof -
  let ?ep = "effective_path row_parent row_tag path"
  have "map_of (header_paths hs) (last ?ep) = None \<or>
        map_of (header_paths hs) (last ?ep) = Some ?ep"
    using agrees_lookup [OF assms(1)] assms(3) by (cases "map_of (header_paths hs) (last ?ep)") auto
  with assms(2) show ?thesis
    unfolding add_leaf_value_def effective_path_def by (auto simp: Let_def)
qed

text \<open>The row record of one selection when every value goes to its default column.\<close>

definition plain_row ::
  "element option \<Rightarrow> string \<Rightarrow> row \<Rightarrow> (pathkey \<times> string) list \<Rightarrow> row" where
  "plain_row row_parent row_tag container_values leaves =
     foldl (\<lambda>r (path, text).
              if text = [] then r
              else AList.update (last (effective_path row_parent row_tag path)) text r)
       (foldl (\<lambda>r (c, v). if map_of r c = None then AList.update c v r else r)
          [] container_values)
       leaves"

lemma container_fold_agrees:
  assumes "header_agrees N hs"
    and "\<forall>(c, v) \<in> set cvs. N c = container_path row_parent c"
  shows "foldl (add_container_value row_parent) (hs, row_map) cvs =
           (register_all (map (\<lambda>(c, v). (c, container_path row_parent c)) cvs) hs,
            foldl (\<lambda>r (c, v). if map_of r c = None then AList.update c v r else r) row_map cvs)"
  using assms
proof (induction cvs arbitrary: hs row_map)
  case Nil
  show ?case by simp
next
  case (Cons item cvs)
  obtain c v where item: "item = (c, v)" by (cases item)
  with Cons.prems have c: "N c = container_path row_parent c" by simp
  from Cons.prems(1) c have "header_agrees N (register_column c (container_path row_parent c) hs)"
    by (rule register_column_agrees)
  moreover from Cons.prems have "\<forall>(c, v) \<in> set cvs. N c = container_path row_parent c" by simp
  ultimately show ?case
    using Cons.IH add_container_value_agrees [OF Cons.prems(1) c] item by simp
qed

lemma leaf_fold_agrees:
  assumes "header_agrees N hs"
    and "\<forall>(path, text) \<in> set leaves. text \<noteq> [] \<longrightarrow>
           N (last (effective_path row_parent row_tag path)) = effective_path row_parent row_tag path"
  shows "foldl (add_leaf_value row_parent row_tag) (hs, row_map) leaves =
           (register_all
              (map (\<lambda>(path, text). (last (effective_path row_parent row_tag path),
                                       effective_path row_parent row_tag path))
                 (filter (\<lambda>(path, text). text \<noteq> []) leaves)) hs,
            foldl (\<lambda>r (path, text).
                     if text = [] then r
                     else AList.update (last (effective_path row_parent row_tag path)) text r)
              row_map leaves)"
  using assms
proof (induction leaves arbitrary: hs row_map)
  case Nil
  show ?case by simp
next
  case (Cons leaf leaves)
  obtain path str where leaf: "leaf = (path, str)" by (cases leaf)
  let ?ep = "effective_path row_parent row_tag path"
  from Cons.prems have rest: "\<forall>(path, text) \<in> set leaves. text \<noteq> [] \<longrightarrow>
      N (last (effective_path row_parent row_tag path)) = effective_path row_parent row_tag path"
    by simp
  show ?case
  proof (cases "str = []")
    case True
    with Cons.IH [OF Cons.prems(1) rest] leaf show ?thesis
      by (simp add: add_leaf_value_empty)
  next
    case False
    with Cons.prems leaf have ep: "N (last ?ep) = ?ep" by simp
    from Cons.prems(1) ep have "header_agrees N (register_column (last ?ep) ?ep hs)"
      by (rule register_column_agrees)
    with Cons.IH rest add_leaf_value_agrees [OF Cons.prems(1) False ep] leaf False
    show ?thesis by simp
  qed
qed

lemma row_requests_container:
  "(c, v) \<in> set cvs \<Longrightarrow>
   (c, container_path row_parent c) \<in> set (row_requests row_elem row_parent row_tag cvs sel)"
  unfolding row_requests_def by force

lemma row_requests_leaf:
  "(path, txt) \<in> set (iter_scalar_leaves row_elem sel None) \<Longrightarrow> txt \<noteq> [] \<Longrightarrow>
   (last (effective_path row_parent row_tag path), effective_path row_parent row_tag path)
     \<in> set (row_requests row_elem row_parent row_tag cvs sel)"
  unfolding row_requests_def by force

lemma build_row_agrees:
  assumes "header_agrees N hs"
    and "\<forall>(c, p) \<in> set (row_requests row_elem row_parent row_tag cvs sel). N c = p"
  shows "build_row row_elem row_parent row_tag cvs hs sel =
           (plain_row row_parent row_tag cvs (iter_scalar_leaves row_elem sel None),
            register_all (row_requests row_elem row_parent row_tag cvs sel) hs)"
proof -
  let ?creqs = "map (\<lambda>(c, v). (c, container_path row_parent c)) cvs"
  from assms(2) have c: "\<forall>(c, v) \<in> set cvs. N c = container_path row_parent c"
    using row_requests_container [of _ _ cvs row_parent row_elem row_tag sel] by fastforce
  from assms(2) have l: "\<forall>(path, text) \<in> set (iter_scalar_leaves row_elem sel None). text \<noteq> [] \<longrightarrow>
      N (last (effective_path row_parent row_tag path)) = effective_path row_parent row_tag path"
    using row_requests_leaf [of _ _ row_elem sel row_parent row_tag cvs] by fastforce
  from c have "\<forall>(c, p) \<in> set ?creqs. N c = p" by auto
  with assms(1) have "header_agrees N (register_all ?creqs hs)"
    using register_all_agrees by blast
  from leaf_fold_agrees [OF this l] container_fold_agrees [OF assms(1) c]
  show ?thesis
    by (simp add: build_row_def plain_row_def row_requests_def)
qed

lemma build_rows_agrees:
  assumes "header_agrees N hs"
    and "\<forall>sel \<in> set sels. \<forall>(c, p) \<in> set (row_requests row_elem row_parent row_tag cvs sel). N c = p"
  shows "build_rows row_elem row_parent row_tag cvs sels (rows, hs) =
           (rows @ map (\<lambda>sel. plain_row row_parent row_tag cvs (iter_scalar_leaves row_elem sel None)) sels,
            register_all (concat (map (row_requests row_elem row_parent row_tag cvs) sels)) hs)"
  using assms
proof (induction sels arbitrary: rows hs)
  case Nil
  show ?case by simp
next
  case (Cons sel sels)
  let ?reqs = "row_requests row_elem row_parent row_tag cvs sel"
  from Cons.prems have r: "\<forall>(c, p) \<in> set ?reqs. N c = p" by simp
  with Cons.prems(1) have "header_agrees N (register_all ?reqs hs)"
    using register_all_agrees by blast
  moreover from Cons.prems have "\<forall>sel \<in> set sels.
      \<forall>(c, p) \<in> set (row_requests row_elem row_parent row_tag cvs sel). N c = p"
    by simp
  ultimately show ?case
    using Cons.IH build_row_agrees [OF Cons.prems(1) r] by simp
qed

definition element_rows :: "element \<Rightarrow> element option \<Rightarrow> string \<Rightarrow> row list" where
  "element_rows row_elem row_parent row_tag =
     map (\<lambda>sel. plain_row row_parent row_tag (build_container_values row_parent row_tag)
                   (iter_scalar_leaves row_elem sel None))
       (expand_groups (reachable_groups row_elem [tag row_elem]) [])"

lemma extract_rows_for_element_agrees:
  assumes "header_agrees N hs"
    and "\<forall>(c, p) \<in> set (element_requests row_elem row_parent row_tag). N c = p"
  shows "extract_rows_for_element row_elem row_parent row_tag hs =
           Some (element_rows row_elem row_parent row_tag,
                 register_all (element_requests row_elem row_parent row_tag) hs)"
proof -
  let ?sels = "expand_groups (reachable_groups row_elem [tag row_elem]) []"
  let ?cvs = "build_container_values row_parent row_tag"
  have reqs: "element_requests row_elem row_parent row_tag =
      concat (map (row_requests row_elem row_parent row_tag ?cvs) ?sels)"
    by (simp add: element_requests_def expand_selections_eq)
  with assms(2) have "\<forall>sel \<in> set ?sels.
      \<forall>(c, p) \<in> set (row_requests row_elem row_parent row_tag ?cvs sel). N c = p"
    by auto
  from build_rows_agrees [OF assms(1) this, of "[]"] reqs show ?thesis
    by (simp add: extract_rows_for_element_eq element_rows_def)
qed

lemma extract_row_elements_agrees:
  assumes "header_agrees N hs"
    and "\<forall>row_elem \<in> set row_elements.
           \<forall>(c, p) \<in> set (element_requests row_elem row_parent row_tag). N c = p"
  shows "extract_row_elements row_elements row_parent row_tag (rows, hs) =
           Some (rows @ concat (map (\<lambda>e. element_rows e row_parent row_tag) row_elements),
                 register_all
                   (concat (map (\<lambda>e. element_requests e row_parent row_tag) row_elements)) hs)"
  using assms
proof (induction row_elements arbitrary: rows hs)
  case Nil
  show ?case by simp
next
  case (Cons row_elem row_elements)
  let ?reqs = "element_requests row_elem row_parent row_tag"
  from Cons.prems have r: "\<forall>(c, p) \<in> set ?reqs. N c = p" by simp
  with Cons.prems(1) have "header_agrees N (register_all ?reqs hs)"
    using register_all_agrees by blast
  moreover from Cons.prems have "\<forall>row_elem \<in> set row_elements.
      \<forall>(c, p) \<in> set (element_requests row_elem row_parent row_tag). N c = p"
    by simp
  ultimately show ?case
    using Cons.IH extract_rows_for_element_agrees [OF Cons.prems(1) r] by simp
qed

definition document_rows :: "element \<Rightarrow> row list" where
  "document_rows root =
     (case find_row_parent_and_tag root of
        (row_parent, row_tag, row_elements) \<Rightarrow>
          concat (map (\<lambda>e. element_rows e row_parent row_tag) row_elements))"

lemma extract_table_from_file_agrees:
  assumes "header_agrees N hs" and "\<forall>(c, p) \<in> set (name_requests root). N c = p"
  shows "extract_table_from_file root hs =
           Some (document_rows root, register_all (name_requests root) hs)"
proof -
  obtain row_parent row_tag row_elements
    where loc: "find_row_parent_and_tag root = (row_parent, row_tag, row_elements)"
    by (cases "find_row_parent_and_tag root")
  with assms(2) have "\<forall>row_elem \<in> set row_elements.
      \<forall>(c, p) \<in> set (element_requests row_elem row_parent row_tag). N c = p"
    by (auto simp: name_requests_def)
  from extract_row_elements_agrees [OF assms(1) this, of "[]"] loc show ?thesis
    by (simp add: extract_table_from_file_def document_rows_def name_requests_def)
qed

lemma merge_inputs_agrees:
  assumes "header_agrees N hs"
    and "\<forall>root \<in> set inputs. \<forall>(c, p) \<in> set (name_requests root). N c = p"
  shows "merge_inputs inputs (merged_rows, hs) =
           Some (merged_rows @ concat (map document_rows inputs),
                 register_all (concat (map name_requests inputs)) hs)"
  using assms
proof (induction inputs arbitrary: merged_rows hs)
  case Nil
  show ?case by simp
next
  case (Cons root inputs)
  from Cons.prems have r: "\<forall>(c, p) \<in> set (name_requests root). N c = p" by simp
  with Cons.prems(1) have "header_agrees N (register_all (name_requests root) hs)"
    using register_all_agrees by blast
  moreover from Cons.prems have "\<forall>root \<in> set inputs. \<forall>(c, p) \<in> set (name_requests root). N c = p"
    by simp
  ultimately show ?case
    using Cons.IH extract_table_from_file_agrees [OF Cons.prems(1) r] by simp
qed

definition rows_alone :: "element \<Rightarrow> row list" where
  "rows_alone root =
     (case extract_table_from_file root fresh_header of
        Some (rows, hs) \<Rightarrow> rows | None \<Rightarrow> [])"

lemma fresh_header_agrees: "header_agrees N fresh_header"
  by (simp add: header_agrees_def fresh_header_def)

lemma register_all_order:
  assumes "header_agrees N hs" and "\<forall>(c, p) \<in> set requests. N c = p"
  shows "header_order (register_all requests hs) =
           header_order hs @ filter (\<lambda>c. c \<notin> set (header_order hs)) (first_seen (map fst requests))"
  using assms(2)
proof (induction requests rule: rev_induct)
  case Nil
  show ?case by (simp add: first_seen_def)
next
  case (snoc r requests)
  obtain c p where r: "r = (c, p)" by (cases r)
  let ?hs = "register_all requests hs"
  from snoc.prems have reqs: "\<forall>(c, p) \<in> set requests. N c = p" by simp
  with assms(1) have agrees: "header_agrees N ?hs"
    and cols: "set (header_order ?hs) = set (header_order hs) \<union> fst ` set requests"
    using register_all_agrees by blast+
  from agrees have "map_of (header_paths ?hs) c = None \<longleftrightarrow> c \<notin> set (header_order ?hs)"
    by (simp add: header_agrees_def map_of_eq_None_iff)
  then have "header_order (register_column c p ?hs) =
      (if c \<in> set (header_order ?hs) then header_order ?hs else header_order ?hs @ [c])"
    by (simp add: register_column_def)
  with snoc.IH [OF reqs] cols r show ?case
    by (auto simp: first_seen_snoc)
qed

lemma collision_freeD:
  assumes "collision_free docs"
    and "(c, p) \<in> set (concat (map name_requests docs))"
    and "(c, p') \<in> set (concat (map name_requests docs))"
  shows "p = p'"
proof -
  let ?R = "concat (map name_requests docs)"
  from assms(1) have "\<forall>x \<in> set ?R. case x of (c, p) \<Rightarrow>
      \<forall>y \<in> set ?R. case y of (c', p') \<Rightarrow> if c = c' then p = p' else True"
    unfolding collision_free_def Let_def list_all_iff .
  from this assms(2) have "case (c, p) of (c, p) \<Rightarrow>
      \<forall>y \<in> set ?R. case y of (c', p') \<Rightarrow> if c = c' then p = p' else True"
    by (rule bspec)
  then have "\<forall>y \<in> set ?R. case y of (c', p') \<Rightarrow> if c = c' then p = p' else True"
    by simp
  from this assms(3) have "case (c, p') of (c', p') \<Rightarrow> if c = c' then p = p' else True"
    by (rule bspec)
  then show ?thesis by simp
qed

lemma concat_requests_mem:
  "(c, p) \<in> set (concat (map name_requests ds)) \<longleftrightarrow>
   (\<exists>d \<in> set ds. (c, p) \<in> set (name_requests d))"
  by auto

text \<open>
  C8 (as amended). When the documents are collision free and are merged into one shared,
  initially fresh header state in two different orders, both runs return; in both, every
  document contributes exactly the rows it yields when processed alone; each header is the
  first-seen order of the requested names over its own sequence of documents, so the
  column order may differ; and the two headers hold the same set of columns.
\<close>

theorem merge_order_without_collisions:
  assumes "collision_free docs" and "mset docs' = mset docs"
  shows "\<exists>hs hs'.
     merge_inputs docs ([], fresh_header) = Some (concat (map rows_alone docs), hs) \<and>
     merge_inputs docs' ([], fresh_header) = Some (concat (map rows_alone docs'), hs') \<and>
     header_order hs = first_seen (map fst (concat (map name_requests docs))) \<and>
     header_order hs' = first_seen (map fst (concat (map name_requests docs'))) \<and>
     set (header_order hs) = set (header_order hs')"
proof -
  let ?R = "concat (map name_requests docs)"
  define N where "N c = (case map_of ?R c of Some p \<Rightarrow> p | None \<Rightarrow> [])" for c
  from assms(2) have same: "set docs' = set docs" by (rule mset_eq_setD)
  have N: "N c = p" if d: "d \<in> set docs" and cp: "(c, p) \<in> set (name_requests d)" for d c p
  proof -
    from d cp have mem: "(c, p) \<in> set ?R" unfolding concat_requests_mem by blast
    then have "c \<in> fst ` set ?R" by (rule rev_image_eqI) simp
    then have "map_of ?R c \<noteq> None" by (simp only: map_of_eq_None_iff not_not)
    then obtain p' where look: "map_of ?R c = Some p'" by blast
    then have "(c, p') \<in> set ?R" by (rule map_of_SomeD)
    with assms(1) mem have "p = p'" by (rule collision_freeD)
    with look show ?thesis by (simp only: N_def option.case)
  qed
  have all: "\<forall>(c, p) \<in> set (name_requests root). N c = p" if "root \<in> set docs" for root
    using N [OF that] by auto
  then have docs: "\<forall>root \<in> set docs. \<forall>(c, p) \<in> set (name_requests root). N c = p"
    by simp
  from all same have docs': "\<forall>root \<in> set docs'. \<forall>(c, p) \<in> set (name_requests root). N c = p"
    by simp
  have alone: "rows_alone d = document_rows d" if "d \<in> set docs" for d
    using extract_table_from_file_agrees [OF fresh_header_agrees all [OF that]]
    by (simp only: rows_alone_def option.case prod.case)
  have rows: "map rows_alone docs = map document_rows docs"
    by (rule map_cong [OF refl]) (rule alone)
  have rows': "map rows_alone docs' = map document_rows docs'"
  proof (rule map_cong [OF refl])
    fix d assume "d \<in> set docs'"
    with same have "d \<in> set docs" by simp
    then show "rows_alone d = document_rows d" by (rule alone)
  qed
  have reqs: "\<forall>(c, p) \<in> set (concat (map name_requests ds)). N c = p"
    if ds: "set ds = set docs" for ds
  proof (intro ballI)
    fix x assume x: "x \<in> set (concat (map name_requests ds))"
    obtain c p where xcp: "x = (c, p)" by (cases x)
    from x xcp have "(c, p) \<in> set (concat (map name_requests ds))" by simp
    then obtain d where "d \<in> set ds" and cp: "(c, p) \<in> set (name_requests d)"
      unfolding concat_requests_mem by (rule bexE)
    with ds have "d \<in> set docs" by simp
    then have "N c = p" using cp by (rule N)
    with xcp show "case x of (c, p) \<Rightarrow> N c = p" by simp
  qed
  let ?hs = "register_all (concat (map name_requests docs)) fresh_header"
  let ?hs' = "register_all (concat (map name_requests docs')) fresh_header"
  have run: "merge_inputs docs ([], fresh_header) = Some (concat (map rows_alone docs), ?hs)"
    using merge_inputs_agrees [OF fresh_header_agrees docs, of "[]"]
    by (simp only: rows append_Nil)
  have run': "merge_inputs docs' ([], fresh_header) = Some (concat (map rows_alone docs'), ?hs')"
    using merge_inputs_agrees [OF fresh_header_agrees docs', of "[]"]
    by (simp only: rows' append_Nil)
  have order: "header_order ?hs = first_seen (map fst (concat (map name_requests docs)))"
    using register_all_order [OF fresh_header_agrees reqs [OF refl]]
    by (simp add: fresh_header_def)
  have order': "header_order ?hs' = first_seen (map fst (concat (map name_requests docs')))"
    using register_all_order [OF fresh_header_agrees reqs [OF same]]
    by (simp add: fresh_header_def)
  have "set (header_order ?hs) = set (header_order ?hs')"
    unfolding order order' set_first_seen set_map set_concat using same by simp
  with run run' order order' show ?thesis by blast
qed

theorem merge_order_without_collisions_witness:
  "collision_free [Element ''b'' None [Element ''m'' (Some ''2'') [], Element ''n'' (Some ''1'') []],
                   Element ''b'' None [Element ''n'' (Some ''3'') []]] \<and>
   mset [Element ''b'' None [Element ''n'' (Some ''3'') []],
         Element ''b'' None [Element ''m'' (Some ''2'') [], Element ''n'' (Some ''1'') []]]
   = mset [Element ''b'' None [Element ''m'' (Some ''2'') [], Element ''n'' (Some ''1'') []],
           Element ''b'' None [Element ''n'' (Some ''3'') []]] \<and>
   merge_inputs [Element ''b'' None [Element ''m'' (Some ''2'') [], Element ''n'' (Some ''1'') []],
                 Element ''b'' None [Element ''n'' (Some ''3'') []]] ([], fresh_header)
   = Some ([[(''m'', ''2''), (''n'', ''1'')], [(''n'', ''3'')]],
           \<lparr>header_order = [''m'', ''n''],
              header_paths = [(''m'', [''b'', ''m'']), (''n'', [''b'', ''n''])]\<rparr>) \<and>
   merge_inputs [Element ''b'' None [Element ''n'' (Some ''3'') []],
                 Element ''b'' None [Element ''m'' (Some ''2'') [], Element ''n'' (Some ''1'') []]]
     ([], fresh_header)
   = Some ([[(''n'', ''3'')], [(''m'', ''2''), (''n'', ''1'')]],
           \<lparr>header_order = [''n'', ''m''],
              header_paths = [(''n'', [''b'', ''n'']), (''m'', [''b'', ''m''])]\<rparr>) \<and>
   set [''m'', ''n''] = set [''n'', ''m'']"
proof -
  let ?d1 = "Element ''b'' None [Element ''m'' (Some ''2'') [], Element ''n'' (Some ''1'') []]"
  let ?d2 = "Element ''b'' None [Element ''n'' (Some ''3'') []]"
  let ?hs = "\<lparr>header_order = [''m'', ''n''],
              header_paths = [(''m'', [''b'', ''m'']), (''n'', [''b'', ''n''])]\<rparr>"
  let ?hs' = "\<lparr>header_order = [''n'', ''m''],
              header_paths = [(''n'', [''b'', ''n'']), (''m'', [''b'', ''m''])]\<rparr>"
  have free: "collision_free [?d1, ?d2]" by code_simp
  have perm: "mset [?d2, ?d1] = mset [?d1, ?d2]" by simp
  have run: "merge_inputs [?d1, ?d2] ([], fresh_header)
      = Some ([[(''m'', ''2''), (''n'', ''1'')], [(''n'', ''3'')]], ?hs)"
    by code_simp
  have run': "merge_inputs [?d2, ?d1] ([], fresh_header)
      = Some ([[(''n'', ''3'')], [(''m'', ''2''), (''n'', ''1'')]], ?hs')"
    by code_simp
  from merge_order_without_collisions [OF free perm] run run'
  have "set (header_order ?hs) = set (header_order ?hs')" by auto
  then have "set [''m'', ''n''] = set [''n'', ''m'']" by simp
  with free perm run run' show ?thesis by blast
qed

end
